theory Spec2Isabelle
  imports Complex_Main "HOL-Library.Char_ord" "HOL-Library.List_Lexorder"
begin

section \<open>Strings of the host language\<close>

text \<open>
  A JavaScript string is a sequence of UTF-16 code units. The embedding represents a
  string as a \<^typ>\<open>string\<close>, one \<^typ>\<open>char\<close> per code unit, its code being the code unit:
  it covers the documents all of whose code units are below 256 (ASCII and Latin-1).
  The code units outside this range that the source singles out (the line separators
  U+2028 and U+2029, the white space beyond Latin-1, the ten mathematical glyphs of the
  symbol pattern) have no representation and therefore do not occur.
\<close>

definition bs :: char where
  "bs = CHR 0x5C"

definition nl :: char where
  "nl = CHR 0x0A"

definition isLineTerminator :: "char \<Rightarrow> bool" where
  "isLineTerminator c = (c = CHR 0x0A \<or> c = CHR 0x0D)"

text \<open>White space and line terminators, the characters of \<^verbatim>\<open>\s\<close> and of \<^verbatim>\<open>trim()\<close>.\<close>

definition isWhiteSpace :: "char \<Rightarrow> bool" where
  "isWhiteSpace c = (c \<in> set [CHR 0x09, CHR 0x0A, CHR 0x0B, CHR 0x0C, CHR 0x0D, CHR 0x20, CHR 0xA0])"

definition inRange :: "char \<Rightarrow> char \<Rightarrow> char \<Rightarrow> bool" where
  "inRange lo hi c = ((of_char lo :: nat) \<le> of_char c \<and> (of_char c :: nat) \<le> of_char hi)"

definition lowerChar :: "char \<Rightarrow> char" where
  "lowerChar c =
     (if inRange CHR ''A'' CHR ''Z'' c \<or> (inRange (CHR 0xC0) (CHR 0xDE) c \<and> c \<noteq> CHR 0xD7)
      then char_of (of_char c + (32::nat)) else c)"

definition upperChar :: "char \<Rightarrow> char" where
  "upperChar c =
     (if inRange CHR ''a'' CHR ''z'' c \<or> (inRange (CHR 0xE0) (CHR 0xFE) c \<and> c \<noteq> CHR 0xF7)
      then char_of (of_char c - (32::nat)) else c)"

definition toLowerCase :: "string \<Rightarrow> string" where
  "toLowerCase s = map lowerChar s"

definition trimStart :: "string \<Rightarrow> string" where
  "trimStart s = dropWhile isWhiteSpace s"

definition trim :: "string \<Rightarrow> string" where
  "trim s = rev (dropWhile isWhiteSpace (rev (dropWhile isWhiteSpace s)))"

text \<open>\<^verbatim>\<open>s.substring(a, b)\<close>: both ends are clamped to the length and swapped when \<open>a > b\<close>.\<close>

definition substring :: "string \<Rightarrow> nat \<Rightarrow> nat \<Rightarrow> string" where
  "substring s a b =
     (let a' = min a (length s); b' = min b (length s)
      in take (max a' b' - min a' b') (drop (min a' b') s))"

definition substringFrom :: "string \<Rightarrow> nat \<Rightarrow> string" where
  "substringFrom s a = drop a s"

fun startsWith :: "string \<Rightarrow> string \<Rightarrow> bool" where
  "startsWith s [] = True"
| "startsWith [] (c # cs) = False"
| "startsWith (d # ds) (c # cs) = (d = c \<and> startsWith ds cs)"

fun includesStr :: "string \<Rightarrow> string \<Rightarrow> bool" where
  "includesStr [] sub = (sub = [])"
| "includesStr (d # ds) sub = (startsWith (d # ds) sub \<or> includesStr ds sub)"

text \<open>\<^verbatim>\<open>xs.join(sep)\<close>\<close>

fun join :: "string list \<Rightarrow> string \<Rightarrow> string" where
  "join [] sep = []"
| "join [x] sep = x"
| "join (x # y # ys) sep = x @ sep @ join (y # ys) sep"

text \<open>\<^verbatim>\<open>s.indexOf(sub)\<close>: the first position of \<open>sub\<close>, \<open>None\<close> for the source's \<open>-1\<close>.\<close>

fun indexOf :: "string \<Rightarrow> string \<Rightarrow> nat option" where
  "indexOf [] sub = (if sub = [] then Some 0 else None)"
| "indexOf (d # ds) sub =
     (if startsWith (d # ds) sub then Some 0 else map_option Suc (indexOf ds sub))"

fun lastIndexOf :: "string \<Rightarrow> string \<Rightarrow> nat option" where
  "lastIndexOf [] sub = (if sub = [] then Some 0 else None)"
| "lastIndexOf (d # ds) sub =
     (case lastIndexOf ds sub of
        Some i \<Rightarrow> Some (Suc i)
      | None \<Rightarrow> if startsWith (d # ds) sub then Some 0 else None)"

text \<open>\<^verbatim>\<open>content.substring(0, index).split('\n').length\<close>\<close>

definition getLineNumber :: "string \<Rightarrow> nat \<Rightarrow> nat" where
  "getLineNumber content index = Suc (length (filter (\<lambda>c. c = nl) (substring content 0 index)))"

text \<open>The decimal numeral of a number, as a template literal prints it.\<close>

fun digits :: "nat \<Rightarrow> string" where
  "digits n =
     (if n < 10 then [char_of (48 + n)] else digits (n div 10) @ [char_of (48 + n mod 10)])"

declare digits.simps [simp del]

section \<open>Regular expressions\<close>

text \<open>
  The source scans with regular expressions. A pattern is a term of \<open>re\<close>, and the
  matcher \<open>ms\<close> returns, for a start position, every way the pattern can match there, in
  the order in which a backtracking matcher tries them: the head of the list is the
  match the engine reports. Captures are kept per group number.
\<close>

datatype citem = Single char | Range char char | Space

datatype re =
    Chr char
  | Dot
  | Class bool "citem list"
  | Seq re re
  | Alt re re
  | Star re
  | LazyStar re
  | Opt re
  | LazyOpt re
  | Group nat re
  | Eps
  | Bol
  | Eol

record flags =
  ignoreCase :: bool
  multiline :: bool
  dotAll :: bool

definition noFlags :: flags where
  "noFlags = \<lparr>ignoreCase = False, multiline = False, dotAll = False\<rparr>"

definition flagI :: flags where
  "flagI = \<lparr>ignoreCase = True, multiline = False, dotAll = False\<rparr>"

definition flagM :: flags where
  "flagM = \<lparr>ignoreCase = False, multiline = True, dotAll = False\<rparr>"

definition flagS :: flags where
  "flagS = \<lparr>ignoreCase = False, multiline = False, dotAll = True\<rparr>"

text \<open>\<open>r+\<close> and its lazy form \<open>r+?\<close>: one \<open>r\<close>, then \<open>r*\<close> or \<open>r*?\<close>.\<close>

definition Plus :: "re \<Rightarrow> re" where
  "Plus r = Seq r (Star r)"

definition LazyPlus :: "re \<Rightarrow> re" where
  "LazyPlus r = Seq r (LazyStar r)"

text \<open>A literal word, character by character.\<close>

fun lit :: "string \<Rightarrow> re" where
  "lit [] = Eps"
| "lit (c # cs) = Seq (Chr c) (lit cs)"

text \<open>An alternation \<open>a|b|c\<close>; the empty alternation is the empty pattern.\<close>

fun alts :: "re list \<Rightarrow> re" where
  "alts [] = Eps"
| "alts [r] = r"
| "alts (r # rs) = Alt r (alts rs)"

text \<open>
  With the flag \<open>i\<close> two characters are equal when their canonical (upper-case) forms
  are; a character that is not a letter is its own canonical form.
\<close>

definition charEq :: "flags \<Rightarrow> char \<Rightarrow> char \<Rightarrow> bool" where
  "charEq f c d = (if ignoreCase f then upperChar c = upperChar d else c = d)"

fun itemHas :: "flags \<Rightarrow> citem \<Rightarrow> char \<Rightarrow> bool" where
  "itemHas f (Single c) d = charEq f c d"
| "itemHas f (Range lo hi) d =
     (if ignoreCase f
      then inRange lo hi d \<or> inRange lo hi (upperChar d) \<or> inRange lo hi (lowerChar d)
      else inRange lo hi d)"
| "itemHas f Space d = isWhiteSpace d"

definition classHas :: "flags \<Rightarrow> citem list \<Rightarrow> char \<Rightarrow> bool" where
  "classHas f items d = list_ex (\<lambda>it. itemHas f it d) items"

type_synonym caps = "nat \<Rightarrow> string option"

text \<open>
  A quantified term starts each of its iterations with the captures of the groups inside
  it undefined, and an iteration that is not required and matches the empty string is
  given up.
\<close>

fun groupsOf :: "re \<Rightarrow> nat list" where
  "groupsOf (Seq a b) = groupsOf a @ groupsOf b"
| "groupsOf (Alt a b) = groupsOf a @ groupsOf b"
| "groupsOf (Star r) = groupsOf r"
| "groupsOf (LazyStar r) = groupsOf r"
| "groupsOf (Opt r) = groupsOf r"
| "groupsOf (LazyOpt r) = groupsOf r"
| "groupsOf (Group n r) = n # groupsOf r"
| "groupsOf r = []"

definition clearCaps :: "nat list \<Rightarrow> caps \<Rightarrow> caps" where
  "clearCaps ns cs = (\<lambda>n. if n \<in> set ns then None else cs n)"

function ms :: "flags \<Rightarrow> string \<Rightarrow> re \<Rightarrow> nat \<times> caps \<Rightarrow> (nat \<times> caps) list" where
  "ms f s (Chr c) (p, cs) =
     (if p < length s \<and> charEq f c (s ! p) then [(Suc p, cs)] else [])"
| "ms f s Dot (p, cs) =
     (if p < length s \<and> (dotAll f \<or> \<not> isLineTerminator (s ! p)) then [(Suc p, cs)] else [])"
| "ms f s (Class neg items) (p, cs) =
     (if p < length s \<and> (classHas f items (s ! p) \<noteq> neg) then [(Suc p, cs)] else [])"
| "ms f s (Seq a b) (p, cs) = concat (map (ms f s b) (ms f s a (p, cs)))"
| "ms f s (Alt a b) (p, cs) = ms f s a (p, cs) @ ms f s b (p, cs)"
| "ms f s (Star r) (p, cs) =
     concat (map (\<lambda>st. if p < fst st \<and> fst st \<le> length s then ms f s (Star r) st else [])
                 (ms f s r (p, clearCaps (groupsOf r) cs)))
     @ [(p, cs)]"
| "ms f s (LazyStar r) (p, cs) =
     (p, cs) #
     concat (map (\<lambda>st. if p < fst st \<and> fst st \<le> length s then ms f s (LazyStar r) st else [])
                 (ms f s r (p, clearCaps (groupsOf r) cs)))"
| "ms f s (Opt r) (p, cs) =
     filter (\<lambda>st. p < fst st) (ms f s r (p, clearCaps (groupsOf r) cs)) @ [(p, cs)]"
| "ms f s (LazyOpt r) (p, cs) =
     (p, cs) # filter (\<lambda>st. p < fst st) (ms f s r (p, clearCaps (groupsOf r) cs))"
| "ms f s (Group n r) (p, cs) =
     map (\<lambda>st. (fst st, (snd st)(n := Some (substring s p (fst st))))) (ms f s r (p, cs))"
| "ms f s Eps (p, cs) = [(p, cs)]"
| "ms f s Bol (p, cs) =
     (if p = 0 \<or> (multiline f \<and> p \<le> length s \<and> isLineTerminator (s ! (p - 1)))
      then [(p, cs)] else [])"
| "ms f s Eol (p, cs) =
     (if p = length s \<or> (multiline f \<and> p < length s \<and> isLineTerminator (s ! p))
      then [(p, cs)] else [])"
  by pat_completeness auto
termination
  by (relation "inv_image (less_than <*lex*> less_than)
        (\<lambda>(f, s, r, st). (size r, length s - fst st))") auto


lemma ms_bounds:
  "st' \<in> set (ms f s r st) \<Longrightarrow> fst st \<le> fst st' \<and> (fst st \<le> length s \<longrightarrow> fst st' \<le> length s)"
proof (induction f s r st arbitrary: st' rule: ms.induct)
  case (4 f s a b p cs)
  then obtain st1 where a: "st1 \<in> set (ms f s a (p, cs))" and b: "st' \<in> set (ms f s b st1)"
    by auto
  from "4.IH"(1) [OF a] "4.IH"(2) [OF a b] show ?case
    by auto
next
  case (6 f s r p cs)
  from "6.prems" consider "st' = (p, cs)"
    | st1 where "st1 \<in> set (ms f s r (p, clearCaps (groupsOf r) cs))" "p < fst st1" "fst st1 \<le> length s"
        "st' \<in> set (ms f s (Star r) st1)"
    by (auto split: if_splits)
  then show ?case
  proof cases
    case 1
    then show ?thesis by simp
  next
    case 2
    from "6.IH"(2) [OF 2(1) _ 2(4)] 2(2,3) show ?thesis
      by auto
  qed
next
  case (7 f s r p cs)
  from "7.prems" consider "st' = (p, cs)"
    | st1 where "st1 \<in> set (ms f s r (p, clearCaps (groupsOf r) cs))" "p < fst st1" "fst st1 \<le> length s"
        "st' \<in> set (ms f s (LazyStar r) st1)"
    by (auto split: if_splits)
  then show ?case
  proof cases
    case 1
    then show ?thesis by simp
  next
    case 2
    from "7.IH"(2) [OF 2(1) _ 2(4)] 2(2,3) show ?thesis
      by auto
  qed
qed (auto split: if_splits)


text \<open>
  A match as \<^verbatim>\<open>exec\<close> reports it: where it starts (\<^verbatim>\<open>match.index\<close>), where it ends,
  and its captures; \<open>mtext\<close> is \<^verbatim>\<open>match[0]\<close> and \<open>mgroup\<close> is \<^verbatim>\<open>match[n]\<close>, \<open>None\<close>
  for \<^verbatim>\<open>undefined\<close>.
\<close>

record rmatch =
  mindex :: nat
  mend :: nat
  mcaps :: caps

definition mtext :: "string \<Rightarrow> rmatch \<Rightarrow> string" where
  "mtext s m = substring s (mindex m) (mend m)"

definition mgroup :: "rmatch \<Rightarrow> nat \<Rightarrow> string option" where
  "mgroup m n = mcaps m n"

text \<open>The first match at or after position \<open>i\<close> (\<^verbatim>\<open>exec\<close> with \<^verbatim>\<open>lastIndex = i\<close>).\<close>

function execFrom :: "flags \<Rightarrow> string \<Rightarrow> re \<Rightarrow> nat \<Rightarrow> rmatch option" where
  "execFrom f s r i =
     (if length s < i then None
      else case ms f s r (i, \<lambda>n. None) of
             [] \<Rightarrow> execFrom f s r (Suc i)
           | st # rest \<Rightarrow> Some \<lparr>mindex = i, mend = fst st, mcaps = snd st\<rparr>)"
  by pat_completeness auto
termination
  by (relation "measure (\<lambda>(f, s, r, i). Suc (length s) - i)") auto

declare execFrom.simps [simp del]

lemma execFrom_bounds:
  "execFrom f s r i = Some m \<Longrightarrow> i \<le> mindex m \<and> mindex m \<le> mend m \<and> mend m \<le> length s"
proof (induction f s r i rule: execFrom.induct)
  case (1 f s r i)
  show ?case
  proof (cases "length s < i")
    case True
    with "1.prems" show ?thesis by (simp add: execFrom.simps)
  next
    case False
    show ?thesis
    proof (cases "ms f s r (i, \<lambda>n. None)")
      case Nil
      with False "1.prems" have "execFrom f s r (Suc i) = Some m"
        by (simp add: execFrom.simps [of f s r i])
      from "1.IH" [OF False Nil this] show ?thesis by simp
    next
      case (Cons st rest)
      then have "st \<in> set (ms f s r (i, \<lambda>n. None))" by simp
      from ms_bounds [OF this] False have "i \<le> fst st \<and> fst st \<le> length s" by simp
      moreover from False Cons "1.prems" have "m = \<lparr>mindex = i, mend = fst st, mcaps = snd st\<rparr>"
        by (simp add: execFrom.simps [of f s r i])
      ultimately show ?thesis by simp
    qed
  qed
qed

text \<open>
  The loop \<^verbatim>\<open>while ((match = re.exec(s)) !== null)\<close> of a pattern with the flag \<open>g\<close>: each
  search starts where the last match ended (\<^verbatim>\<open>lastIndex\<close>). Every pattern that the source
  writes out in full and runs in such a loop begins with a literal character, here \<open>c\<close>,
  followed by \<open>r\<close>: a match is never empty, so \<^verbatim>\<open>lastIndex\<close> moves on and the loop
  ends. (The pattern that is made from the kinds has its own loop, \<open>firstPass\<close> below.)
\<close>

type_synonym lpattern = "char \<times> re"

definition lre :: "lpattern \<Rightarrow> re" where
  "lre pat = Seq (Chr (fst pat)) (snd pat)"

lemma execFrom_lre_nonempty:
  assumes "execFrom f s (lre pat) i = Some m"
  shows "mindex m < mend m"
  using assms
proof (induction f s "lre pat" i rule: execFrom.induct)
  case (1 f s i)
  show ?case
  proof (cases "length s < i")
    case True
    with "1.prems" show ?thesis by (simp add: execFrom.simps)
  next
    case False
    show ?thesis
    proof (cases "ms f s (lre pat) (i, \<lambda>n. None)")
      case Nil
      with False "1.prems" have "execFrom f s (lre pat) (Suc i) = Some m"
        by (simp add: execFrom.simps [of f s "lre pat" i])
      from "1.hyps" [OF False Nil this] show ?thesis .
    next
      case (Cons st rest)
      then have "st \<in> set (ms f s (lre pat) (i, \<lambda>n. None))" by simp
      then obtain st1 where a: "st1 \<in> set (ms f s (Chr (fst pat)) (i, \<lambda>n. None))"
        and b: "st \<in> set (ms f s (snd pat) st1)"
        by (auto simp: lre_def)
      from a have "fst st1 = Suc i" by (auto split: if_splits)
      with ms_bounds [OF b] have "i < fst st" by simp
      moreover from False Cons "1.prems" have "m = \<lparr>mindex = i, mend = fst st, mcaps = snd st\<rparr>"
        by (simp add: execFrom.simps [of f s "lre pat" i])
      ultimately show ?thesis by simp
    qed
  qed
qed

function execAll :: "flags \<Rightarrow> string \<Rightarrow> lpattern \<Rightarrow> nat \<Rightarrow> rmatch list" where
  "execAll f s pat i =
     (case execFrom f s (lre pat) i of
        None \<Rightarrow> []
      | Some m \<Rightarrow> m # execAll f s pat (mend m))"
  by pat_completeness auto
termination
proof (relation "measure (\<lambda>(f, s, pat, i). Suc (length s) - i)")
  show "wf (measure (\<lambda>(f, s, pat, i). Suc (length s) - i))" by simp
next
  fix f s pat i m
  assume a: "execFrom f s (lre pat) i = Some m"
  from execFrom_bounds [OF a] execFrom_lre_nonempty [OF a]
  have "i < mend m" "mend m \<le> length s"
    by linarith+
  then show "((f, s, pat, mend m), (f, s, pat, i)) \<in> measure (\<lambda>(f, s, pat, i). Suc (length s) - i)"
    by simp
qed

declare execAll.simps [simp del]

text \<open>
  \<^verbatim>\<open>s.match(re)\<close> with the flag \<open>g\<close>: the texts of all matches (the empty list for
  \<^verbatim>\<open>null\<close>); after an empty match the search moves on by one position.
\<close>

function matchAllG :: "flags \<Rightarrow> string \<Rightarrow> re \<Rightarrow> nat \<Rightarrow> string list" where
  "matchAllG f s r i =
     (case execFrom f s r i of
        None \<Rightarrow> []
      | Some m \<Rightarrow>
          mtext s m # matchAllG f s r (if mend m = mindex m then Suc (mend m) else mend m))"
  by pat_completeness auto
termination
proof (relation "measure (\<lambda>(f, s, r, i). Suc (length s) - i)")
  show "wf (measure (\<lambda>(f, s, r, i). Suc (length s) - i))" by simp
next
  fix f s r i m
  assume "execFrom f s r i = Some m"
  with execFrom_bounds [of f s r i m]
  show "((f, s, r, if mend m = mindex m then Suc (mend m) else mend m), (f, s, r, i))
          \<in> measure (\<lambda>(f, s, r, i). Suc (length s) - i)"
    by auto
qed

declare matchAllG.simps [simp del]

text \<open>\<^verbatim>\<open>s.replace(re, '')\<close> with the flag \<open>g\<close>: what is left of \<open>s\<close> from position \<open>i\<close> on.\<close>

function replaceAllG :: "flags \<Rightarrow> string \<Rightarrow> re \<Rightarrow> nat \<Rightarrow> string" where
  "replaceAllG f s r i =
     (case execFrom f s r i of
        None \<Rightarrow> drop i s
      | Some m \<Rightarrow>
          substring s i (mindex m) @
          (if mend m = mindex m
           then take 1 (drop (mindex m) s) @ replaceAllG f s r (Suc (mend m))
           else replaceAllG f s r (mend m)))"
  by pat_completeness auto
termination
proof (relation "measure (\<lambda>(f, s, r, i). Suc (length s) - i)")
  show "wf (measure (\<lambda>(f, s, r, i). Suc (length s) - i))" by simp
next
  fix f s r i m
  assume "execFrom f s r i = Some m" "mend m = mindex m"
  with execFrom_bounds [of f s r i m]
  show "((f, s, r, Suc (mend m)), (f, s, r, i)) \<in> measure (\<lambda>(f, s, r, i). Suc (length s) - i)"
    by auto
next
  fix f s r i m
  assume "execFrom f s r i = Some m" "mend m \<noteq> mindex m"
  with execFrom_bounds [of f s r i m]
  show "((f, s, r, mend m), (f, s, r, i)) \<in> measure (\<lambda>(f, s, r, i). Suc (length s) - i)"
    by auto
qed

declare replaceAllG.simps [simp del]

text \<open>
  \<^verbatim>\<open>s.split(re)\<close> for a pattern without groups: \<open>p\<close> is the start of the current piece
  and \<open>q\<close> the position where a separator is tried.
\<close>

function splitLoop :: "flags \<Rightarrow> string \<Rightarrow> re \<Rightarrow> nat \<Rightarrow> nat \<Rightarrow> string list" where
  "splitLoop f s r p q =
     (if length s \<le> q then [substring s p (length s)]
      else case ms f s r (q, \<lambda>n. None) of
             [] \<Rightarrow> splitLoop f s r p (Suc q)
           | st # rest \<Rightarrow>
               (let e = min (fst st) (length s)
                in if e = p then splitLoop f s r p (Suc q)
                   else substring s p q # splitLoop f s r e e))"
  by pat_completeness auto
termination
proof (relation "inv_image (less_than <*lex*> less_than)
         (\<lambda>(f, s, r, p, q). (length s - q, if p = q then 0 else (1::nat)))")
  show "wf (inv_image (less_than <*lex*> less_than)
         (\<lambda>(f, s, r, p, q). (length s - q, if p = q then 0 else (1::nat))))"
    by (intro wf_inv_image wf_lex_prod wf_less_than)
next
  fix f s r p q
  assume "\<not> length s \<le> q"
  then show "((f, s, r, p, Suc q), (f, s, r, p, q))
      \<in> inv_image (less_than <*lex*> less_than) (\<lambda>(f, s, r, p, q). (length s - q, if p = q then 0 else (1::nat)))"
    by auto
next
  fix f s r p q st rest e
  assume "\<not> length s \<le> q" "e = min (fst st) (length s)" "e = p"
  then show "((f, s, r, p, Suc q), (f, s, r, p, q))
      \<in> inv_image (less_than <*lex*> less_than) (\<lambda>(f, s, r, p, q). (length s - q, if p = q then 0 else (1::nat)))"
    by auto
next
  fix f s r p q st rest e
  assume a: "\<not> length s \<le> q" "ms f s r (q, \<lambda>n. None) = st # rest"
    "e = min (fst st) (length s)" "e \<noteq> p"
  from a(2) have "st \<in> set (ms f s r (q, \<lambda>n. None))" by simp
  from ms_bounds [OF this] have "q \<le> fst st" by simp
  with a(1,3,4) show "((f, s, r, e, e), (f, s, r, p, q))
      \<in> inv_image (less_than <*lex*> less_than) (\<lambda>(f, s, r, p, q). (length s - q, if p = q then 0 else (1::nat)))"
    by auto
qed

declare splitLoop.simps [simp del]

definition splitRe :: "flags \<Rightarrow> string \<Rightarrow> re \<Rightarrow> string list" where
  "splitRe f s r =
     (if s = [] then (if ms f s r (0, \<lambda>n. None) = [] then [s] else [])
      else splitLoop f s r 0 0)"


section \<open>The patterns of the source\<close>

fun seqs :: "re list \<Rightarrow> re" where
  "seqs [] = Eps"
| "seqs [r] = r"
| "seqs (r # rs) = Seq r (seqs rs)"

definition notChar :: "char \<Rightarrow> re" where
  "notChar c = Class True [Single c]"

definition letter :: re where
  "letter = Class False [Range CHR ''a'' CHR ''z'', Range CHR ''A'' CHR ''Z'']"

definition space :: re where
  "space = Class False [Space]"

text \<open>
  The text of the pattern of the opening delimiters, with the kinds spliced in as they
  are: \<^verbatim>\<open>`\\\\begin\\{(${theoremTypes.join('|')})\\}(?:\\[(.*?)\\])?(?:\\{(.*?)\\})?`\<close>,
  that is \<^verbatim>\<open>\\begin\{(\<close>, the kinds joined by \<^verbatim>\<open>|\<close>, and
  \<^verbatim>\<open>)\}(?:\[(.*?)\])?(?:\{(.*?)\})?\<close>.
\<close>

definition beginSource :: "string list \<Rightarrow> string" where
  "beginSource theoremTypes =
     [bs, bs] @ ''begin'' @ [bs] @ ''{('' @ join theoremTypes ''|'' @ '')'' @ [bs] @ ''}(?:'' @ [bs]
     @ ''[(.*?)'' @ [bs] @ ''])?(?:'' @ [bs] @ ''{(.*?)'' @ [bs] @ ''})?''"

text \<open>\<^verbatim>\<open>/\\end\{([^}]+)\}/gi\<close>\<close>

definition endPattern :: lpattern where
  "endPattern = (bs, seqs [lit ''end{'', Group 1 (Plus (notChar CHR ''}'')), Chr CHR ''}''])"

text \<open>\<^verbatim>\<open>/\\begin\{[^}]+\}(?:\[[^\]]*\])?(?:\{[^}]*\})?/\<close>\<close>

definition anyBeginPattern :: re where
  "anyBeginPattern =
     seqs [lit (bs # ''begin{''), Plus (notChar CHR ''}''), Chr CHR ''}'',
           Opt (seqs [Chr CHR ''['', Star (notChar CHR '']''), Chr CHR '']'']),
           Opt (seqs [Chr CHR ''{'', Star (notChar CHR ''}''), Chr CHR ''}''])]"

text \<open>\<^verbatim>\<open>/\\end\{[^}]+\}/\<close>\<close>

definition anyEndPattern :: re where
  "anyEndPattern = seqs [lit (bs # ''end{''), Plus (notChar CHR ''}''), Chr CHR ''}'']"

text \<open>\<^verbatim>\<open>/\\label\{[^}]*\}/g\<close> and \<^verbatim>\<open>/\\label\{([^}]+)\}/\<close>\<close>

definition labelPattern :: re where
  "labelPattern = seqs [lit (bs # ''label{''), Star (notChar CHR ''}''), Chr CHR ''}'']"

definition labelArgPattern :: re where
  "labelArgPattern = seqs [lit (bs # ''label{''), Group 1 (Plus (notChar CHR ''}'')), Chr CHR ''}'']"

text \<open>\<^verbatim>\<open>/^\s*\n+/gm\<close> and \<^verbatim>\<open>/\s*\n+\s*$/gm\<close>\<close>

definition leadingBlankPattern :: re where
  "leadingBlankPattern = seqs [Bol, Star space, Plus (Chr nl)]"

definition trailingBlankPattern :: re where
  "trailingBlankPattern = seqs [Star space, Plus (Chr nl), Star space, Eol]"

text \<open>\<^verbatim>\<open>/\\ref\{([^}]+)\}/g\<close> and \<^verbatim>\<open>/\\eqref\{([^}]+)\}/g\<close>\<close>

definition refPattern :: lpattern where
  "refPattern = (bs, seqs [lit ''ref{'', Group 1 (Plus (notChar CHR ''}'')), Chr CHR ''}''])"

definition eqrefPattern :: lpattern where
  "eqrefPattern = (bs, seqs [lit ''eqref{'', Group 1 (Plus (notChar CHR ''}'')), Chr CHR ''}''])"

text \<open>
  The five symbol patterns, each with its flags:
  \<^verbatim>\<open>/\\([a-zA-Z]+)/g\<close>, \<^verbatim>\<open>/\$([^$]+)\$/g\<close>, \<^verbatim>\<open>/\\\[([^\]]+)\\\]/g\<close>,
  \<^verbatim>\<open>/\\begin\{equation\}(.*?)\\end\{equation\}/gs\<close> and
  \<^verbatim>\<open>/\\begin\{align\}(.*?)\\end\{align\}/gs\<close>.
\<close>

definition symbolPatterns :: "(flags \<times> lpattern) list" where
  "symbolPatterns =
     [(noFlags, (bs, Group 1 (Plus letter))),
      (noFlags, (CHR ''$'', seqs [Group 1 (Plus (notChar CHR ''$'')), Chr CHR ''$''])),
      (noFlags, (bs, seqs [Chr CHR ''['', Group 1 (Plus (notChar CHR '']'')), Chr bs, Chr CHR '']''])),
      (flagS, (bs, seqs [lit ''begin{equation}'', Group 1 (LazyStar Dot), lit (bs # ''end{equation}'')])),
      (flagS, (bs, seqs [lit ''begin{align}'', Group 1 (LazyStar Dot), lit (bs # ''end{align}'')]))]"

text \<open>
  \<^verbatim>\<open>/\\[a-zA-Z]+|[a-zA-Z]+|[...]/g\<close>, the third alternative being the class of the ten
  mathematical glyphs: none of them is a code unit below 256, so the class is empty here.
\<close>

definition innerSymbolPattern :: re where
  "innerSymbolPattern = alts [Seq (Chr bs) (Plus letter), Plus letter, Class False []]"

text \<open>\<^verbatim>\<open>/\\begin\{proof\}(?:\[[^\]]*\])?/i\<close> and \<^verbatim>\<open>/\\end\{proof\}/i\<close>\<close>

definition proofBeginPattern :: re where
  "proofBeginPattern =
     seqs [lit (bs # ''begin{proof}''),
           Opt (seqs [Chr CHR ''['', Star (notChar CHR '']''), Chr CHR '']''])]"

definition proofEndPattern :: re where
  "proofEndPattern = lit (bs # ''end{proof}'')"

section \<open>Content extractors\<close>

text \<open>\<^verbatim>\<open>[...new Set(xs)]\<close>: the distinct elements, each where it first occurs.\<close>

definition setOf :: "'a list \<Rightarrow> 'a list" where
  "setOf xs = fold (\<lambda>x acc. if x \<in> set acc then acc else acc @ [x]) xs []"

text \<open>The text of a group that always takes part in the match.\<close>

definition groupText :: "rmatch \<Rightarrow> nat \<Rightarrow> string" where
  "groupText m n = (case mgroup m n of Some t \<Rightarrow> t | None \<Rightarrow> [])"

definition extractStatement :: "string \<Rightarrow> string" where
  "extractStatement rawContent =
     (case (execFrom noFlags rawContent anyBeginPattern 0,
            execFrom noFlags rawContent anyEndPattern 0) of
        (Some beginMatch, Some endMatch) \<Rightarrow>
          (let start = mindex beginMatch + length (mtext rawContent beginMatch);
               end' = (case lastIndexOf rawContent (mtext rawContent endMatch) of
                         Some e \<Rightarrow> e | None \<Rightarrow> 0);
               statement = trim (substring rawContent start end');
               statement = replaceAllG noFlags statement labelPattern 0;
               statement = replaceAllG flagM statement leadingBlankPattern 0;
               statement = replaceAllG flagM statement trailingBlankPattern 0
           in statement)
      | _ \<Rightarrow> trim rawContent)"

text \<open>The arguments a loop \<^verbatim>\<open>while (match = pattern.exec(content)) references.push(match[1])\<close> collects.\<close>

definition commandArguments :: "lpattern \<Rightarrow> string \<Rightarrow> string list" where
  "commandArguments pat content = map (\<lambda>m. groupText m 1) (execAll noFlags content pat 0)"

definition extractReferences :: "string \<Rightarrow> string list" where
  "extractReferences content =
     (let references = [];
          references = references @ commandArguments refPattern content;
          references = references @ commandArguments eqrefPattern content
      in setOf references)"

definition symbolsOfMatch :: "rmatch \<Rightarrow> string list" where
  "symbolsOfMatch m =
     (case mgroup m 1 of
        None \<Rightarrow> []
      | Some symbolContent \<Rightarrow>
          if symbolContent = [] then []
          else matchAllG noFlags symbolContent innerSymbolPattern 0)"

definition extractSymbols :: "string \<Rightarrow> string list" where
  "extractSymbols content =
     (let symbols = concat (map (\<lambda>(f, pat). concat (map symbolsOfMatch (execAll f content pat 0)))
                                symbolPatterns)
      in sort (setOf symbols))"


section \<open>Outcomes and plain objects\<close>

text \<open>
  What a call does: it returns a value or it throws. \<open>Unmodelled\<close> marks the few
  inputs on which the embedding does not follow the source (each is described where it
  arises); no statement below is made about them.
\<close>

datatype error = Error string | TypeError | SyntaxError

datatype 'a outcome = Returned 'a | Threw error | Unmodelled

fun bindO :: "'a outcome \<Rightarrow> ('a \<Rightarrow> 'b outcome) \<Rightarrow> 'b outcome" where
  "bindO (Returned x) k = k x"
| "bindO (Threw e) k = Threw e"
| "bindO Unmodelled k = Unmodelled"

text \<open>A \<^verbatim>\<open>for (const x of xs)\<close> loop over a state, left when a step throws.\<close>

fun forEachO :: "'a list \<Rightarrow> ('a \<Rightarrow> 's \<Rightarrow> 's outcome) \<Rightarrow> 's \<Rightarrow> 's outcome" where
  "forEachO [] step st = Returned st"
| "forEachO (x # xs) step st = bindO (step x st) (forEachO xs step)"

text \<open>
  The tables of the index are object literals \<^verbatim>\<open>{}\<close> used as dictionaries: a list of own
  properties in the order \<^verbatim>\<open>Object.keys\<close> lists them, on top of the properties every
  object inherits from \<^verbatim>\<open>Object.prototype\<close>. Reading \<^verbatim>\<open>d[k]\<close> gives the own property, or
  else for an inherited name (\<^verbatim>\<open>d['constructor']\<close> is a function, \<^verbatim>\<open>d['__proto__']\<close> the
  prototype object) a value that is truthy and is neither a string nor an array, or
  else \<^verbatim>\<open>undefined\<close>.
\<close>

definition objectPrototypeKeys :: "string list" where
  "objectPrototypeKeys =
     [''constructor'', ''__defineGetter__'', ''__defineSetter__'', ''hasOwnProperty'',
      ''__lookupGetter__'', ''__lookupSetter__'', ''isPrototypeOf'', ''propertyIsEnumerable'',
      ''toString'', ''valueOf'', ''__proto__'', ''toLocaleString'']"

datatype 'v lookup = Own 'v | Inherited | Undefined

type_synonym 'v dict = "(string \<times> 'v) list"

definition dictGet :: "'v dict \<Rightarrow> string \<Rightarrow> 'v lookup" where
  "dictGet d k =
     (case map_of d k of
        Some v \<Rightarrow> Own v
      | None \<Rightarrow> if k \<in> set objectPrototypeKeys then Inherited else Undefined)"

text \<open>
  The property key an inherited value turns into when it is used as a key
  (\<^verbatim>\<open>String(Object.prototype)\<close>, and the text of a native function as Node prints it).
\<close>

definition inheritedKeyText :: "string \<Rightarrow> string" where
  "inheritedKeyText k =
     (if k = ''__proto__'' then ''[object Object]''
      else ''function '' @ (if k = ''constructor'' then ''Object'' else k) @ ''() { [native code] }'')"

text \<open>
  Own keys are listed with the array indices first, in ascending order, and then the
  other keys in the order of their creation. An array index is the decimal numeral of
  a number below \<open>2^32 - 1\<close>.
\<close>

fun numeralValue :: "nat \<Rightarrow> string \<Rightarrow> nat option" where
  "numeralValue acc [] = Some acc"
| "numeralValue acc (c # cs) =
     (if inRange CHR ''0'' CHR ''9'' c then numeralValue (10 * acc + (of_char c - 48)) cs else None)"

definition arrayIndex :: "string \<Rightarrow> nat option" where
  "arrayIndex k =
     (if k = [] \<or> (hd k = CHR ''0'' \<and> k \<noteq> ''0'') then None
      else case numeralValue 0 k of
             Some n \<Rightarrow> if n < 4294967295 then Some n else None
           | None \<Rightarrow> None)"

fun insertKey :: "string \<Rightarrow> 'v \<Rightarrow> 'v dict \<Rightarrow> 'v dict" where
  "insertKey k v [] = [(k, v)]"
| "insertKey k v ((k', v') # d) =
     (case arrayIndex k of
        None \<Rightarrow> (k', v') # insertKey k v d
      | Some n \<Rightarrow>
          (case arrayIndex k' of
             None \<Rightarrow> (k, v) # (k', v') # d
           | Some n' \<Rightarrow> if n < n' then (k, v) # (k', v') # d else (k', v') # insertKey k v d))"

text \<open>
  \<^verbatim>\<open>d[k] = v\<close> for a key other than \<^verbatim>\<open>__proto__\<close>: an own property keeps its place, a new
  one is created.
\<close>

definition dictSet :: "'v dict \<Rightarrow> string \<Rightarrow> 'v \<Rightarrow> 'v dict" where
  "dictSet d k v =
     (if k \<in> set (map fst d) then map (\<lambda>(k', v'). if k' = k then (k', v) else (k', v')) d
      else insertKey k v d)"

section \<open>The pattern constructor\<close>

text \<open>
  \<^verbatim>\<open>new RegExp(text, 'gi')\<close> reads the text of a pattern. The embedding reads the part of
  the pattern language made of characters, escaped punctuation, \<^verbatim>\<open>.\<close>, \<^verbatim>\<open>^\<close>, \<^verbatim>\<open>$\<close>,
  character classes of characters and ranges, groups \<^verbatim>\<open>(...)\<close> and \<^verbatim>\<open>(?:...)\<close>,
  alternatives and the quantifiers \<^verbatim>\<open>*\<close>, \<^verbatim>\<open>+\<close>, \<^verbatim>\<open>?\<close> with their lazy forms. A text
  that breaks the grammar throws a \<^verbatim>\<open>SyntaxError\<close>; a text that uses another part of the
  language (an escaped letter or digit, a brace quantifier, a group that starts with
  \<^verbatim>\<open>(?\<close> other than \<^verbatim>\<open>(?:\<close>) is not modelled.
\<close>

definition isAlnum :: "char \<Rightarrow> bool" where
  "isAlnum c = (inRange CHR ''a'' CHR ''z'' c \<or> inRange CHR ''A'' CHR ''Z'' c \<or> inRange CHR ''0'' CHR ''9'' c)"

text \<open>
  A term and the quantifier that may follow it: the term as quantified, and the text
  after the quantifier.
\<close>

definition quantified :: "re \<Rightarrow> string \<Rightarrow> re \<times> string" where
  "quantified atom cs =
     (case cs of
        [] \<Rightarrow> (atom, cs)
      | q # r \<Rightarrow>
          (let lazy = (case r of [] \<Rightarrow> False | l # r' \<Rightarrow> l = CHR ''?'');
               rest = (if lazy then tl r else r)
           in if q = CHR ''*'' then (if lazy then LazyStar atom else Star atom, rest)
              else if q = CHR ''+'' then (if lazy then LazyPlus atom else Plus atom, rest)
              else if q = CHR ''?'' then (if lazy then LazyOpt atom else Opt atom, rest)
              else (atom, cs)))"

lemma quantified_length: "length (snd (quantified atom cs)) \<le> length cs"
  by (cases cs) (auto simp: quantified_def Let_def split: list.splits)

lemma quantified_measure: "length (snd (quantified atom cs)) < Suc (length cs)"
  using quantified_length [of atom cs] by simp

lemma quantified_measure2: "length (snd (quantified atom cs)) < Suc (Suc (length cs))"
  using quantified_length [of atom cs] by simp

text \<open>A character of a class: itself, or an escaped punctuation character.\<close>

definition classAtom :: "string \<Rightarrow> (char \<times> string) outcome" where
  "classAtom cs =
     (case cs of
        [] \<Rightarrow> Threw SyntaxError
      | c # r \<Rightarrow>
          if c = bs
          then (case r of
                  [] \<Rightarrow> Threw SyntaxError
                | d # r' \<Rightarrow> if isAlnum d \<or> isLineTerminator d then Unmodelled else Returned (d, r'))
          else Returned (c, r))"

lemma classAtom_length: "classAtom cs = Returned (a, r) \<Longrightarrow> length r < length cs"
  by (auto simp: classAtom_def split: list.splits if_splits)

text \<open>
  The items of a class up to its closing bracket, and the text after the bracket. A
  dash between two characters makes a range, which must be in order.
\<close>

function classItems :: "string \<Rightarrow> citem list \<Rightarrow> (citem list \<times> string) outcome" where
  "classItems cs acc =
     (case cs of
        [] \<Rightarrow> Threw SyntaxError
      | c # r \<Rightarrow>
          if c = CHR '']'' then Returned (acc, r)
          else (case classAtom cs of
                  Returned lo \<Rightarrow>
                    (if startsWith (snd lo) ''-'' \<and> 1 < length (snd lo) \<and> snd lo ! 1 \<noteq> CHR '']''
                     then (case classAtom (tl (snd lo)) of
                             Returned hi \<Rightarrow>
                               if fst hi < fst lo then Threw SyntaxError
                               else classItems (snd hi) (acc @ [Range (fst lo) (fst hi)])
                           | Threw e \<Rightarrow> Threw e
                           | Unmodelled \<Rightarrow> Unmodelled)
                     else classItems (snd lo) (acc @ [Single (fst lo)]))
                | Threw e \<Rightarrow> Threw e
                | Unmodelled \<Rightarrow> Unmodelled))"
  by pat_completeness auto
termination
proof (relation "measure (\<lambda>(cs, acc). length cs)")
  show "wf (measure (\<lambda>(cs, acc). length cs))" by simp
next
  fix cs :: string and acc :: "citem list" and c r lo hi
  assume "classAtom cs = Returned lo" "classAtom (tl (snd lo)) = Returned hi"
  then have "length (snd lo) < length cs" "length (snd hi) < length (tl (snd lo))"
    using classAtom_length [of cs "fst lo" "snd lo"]
      classAtom_length [of "tl (snd lo)" "fst hi" "snd hi"] by simp_all
  then show "((snd hi, acc @ [Range (fst lo) (fst hi)]), cs, acc) \<in> measure (\<lambda>(cs, acc). length cs)"
    by simp
next
  fix cs :: string and acc :: "citem list" and c r lo
  assume "classAtom cs = Returned lo"
  then have "length (snd lo) < length cs"
    using classAtom_length [of cs "fst lo" "snd lo"] by simp
  then show "((snd lo, acc @ [Single (fst lo)]), cs, acc) \<in> measure (\<lambda>(cs, acc). length cs)"
    by simp
qed

declare classItems.simps [simp del]

lemma classItems_length:
  "classItems cs acc = Returned (its, rest) \<Longrightarrow> length rest < length cs"
proof (induction cs acc rule: classItems.induct)
  case (1 cs acc)
  note u = "1.prems" [unfolded classItems.simps [of cs acc]]
  from u obtain c r where Cons: "cs = c # r"
    by (cases cs) simp_all
  show ?case
  proof (cases "c = CHR '']''")
    case True
    with Cons u show ?thesis by simp
  next
    case False
    show ?thesis
    proof (cases "classAtom cs")
      case (Returned lo)
      from classAtom_length [of cs "fst lo" "snd lo"] Returned
      have l1: "length (snd lo) < length cs" by simp
      show ?thesis
      proof (cases "startsWith (snd lo) ''-'' \<and> 1 < length (snd lo) \<and> snd lo ! 1 \<noteq> CHR '']''")
        case True
        show ?thesis
        proof (cases "classAtom (tl (snd lo))")
          case hi: (Returned hi)
          from classAtom_length [of "tl (snd lo)" "fst hi" "snd hi"] hi
          have l2: "length (snd hi) < length (tl (snd lo))" by simp
          from u False Returned True hi
          have ord: "\<not> fst hi < fst lo"
            and r: "classItems (snd hi) (acc @ [Range (fst lo) (fst hi)]) = Returned (its, rest)"
            by (auto simp: Cons split: if_splits)
          from "1.IH"(1) [OF Cons False Returned True hi ord r] l1 l2 show ?thesis by simp
        next
          case (Threw e)
          with u False Returned True show ?thesis by (simp add: Cons)
        next
          case Unmodelled
          with u False Returned True show ?thesis by (simp add: Cons)
        qed
      next
        case f: False
        with u False Returned
        have r: "classItems (snd lo) (acc @ [Single (fst lo)]) = Returned (its, rest)"
          by (auto simp: Cons split: if_splits)
        from "1.IH"(2) [OF Cons False Returned f r] l1 show ?thesis by simp
      qed
    next
      case (Threw e)
      with u False show ?thesis by (simp add: Cons)
    next
      case Unmodelled
      with u False show ?thesis by (simp add: Cons)
    qed
  qed
qed

text \<open>The class that starts after an opening bracket, and the text after the class.\<close>

definition classOf :: "string \<Rightarrow> (re \<times> string) outcome" where
  "classOf cs =
     (let neg = startsWith cs ''^''
      in case classItems (if neg then tl cs else cs) [] of
           Returned found \<Rightarrow> Returned (Class neg (fst found), snd found)
         | Threw e \<Rightarrow> Threw e
         | Unmodelled \<Rightarrow> Unmodelled)"

lemma classOf_length: "classOf cs = Returned (cl, rest) \<Longrightarrow> length rest < length cs"
proof -
  assume a: "classOf cs = Returned (cl, rest)"
  then obtain its where "classItems (if startsWith cs ''^'' then tl cs else cs) [] = Returned (its, rest)"
    by (auto simp: classOf_def Let_def split: outcome.splits)
  from classItems_length [OF this] show ?thesis
    by (cases cs) (auto split: if_splits)
qed

lemma class_measure:
  "classOf cs = Returned found \<Longrightarrow>
   length (snd (quantified (fst found) (snd found))) < Suc (length cs)"
  using classOf_length [of cs "fst found" "snd found"] quantified_length [of "fst found" "snd found"]
  by simp

text \<open>
  The state of the reader: the alternatives already read and the terms of the
  alternative being read, in the group being read; for each group that is open, its
  kind and the alternatives and terms that were being read when it opened; the number
  of the next capturing group.
\<close>

datatype gkind = Capture nat | NonCapture

record pstate =
  psAlts :: "re list"
  psTerms :: "re list"
  psOpen :: "(gkind \<times> re list \<times> re list) list"
  psNext :: nat

definition addTerm :: "re \<Rightarrow> pstate \<Rightarrow> pstate" where
  "addTerm t st = st\<lparr>psTerms := psTerms st @ [t]\<rparr>"

definition openGroup :: "gkind \<Rightarrow> pstate \<Rightarrow> pstate" where
  "openGroup k st =
     \<lparr>psAlts = [], psTerms = [], psOpen = (k, psAlts st, psTerms st) # psOpen st,
      psNext = (case k of Capture n \<Rightarrow> Suc (psNext st) | NonCapture \<Rightarrow> psNext st)\<rparr>"

definition disjunction :: "pstate \<Rightarrow> re" where
  "disjunction st = alts (psAlts st @ [seqs (psTerms st)])"

function parsePattern :: "string \<Rightarrow> pstate \<Rightarrow> re outcome" where
  "parsePattern [] st = (if psOpen st = [] then Returned (disjunction st) else Threw SyntaxError)"
| "parsePattern (c # cs) st =
     (if c = CHR ''|'' then parsePattern cs (st\<lparr>psAlts := psAlts st @ [seqs (psTerms st)], psTerms := []\<rparr>)
      else if c = CHR ''(''
      then (if startsWith cs ''?:'' then parsePattern (drop 2 cs) (openGroup NonCapture st)
            else if startsWith cs ''?'' then Unmodelled
            else parsePattern cs (openGroup (Capture (psNext st)) st))
      else if c = CHR '')''
      then (case psOpen st of
              [] \<Rightarrow> Threw SyntaxError
            | around # outer \<Rightarrow>
                (let atom = (case fst around of
                               Capture n \<Rightarrow> Group n (disjunction st)
                             | NonCapture \<Rightarrow> disjunction st)
                 in parsePattern (snd (quantified atom cs))
                      (st\<lparr>psAlts := fst (snd around),
                          psTerms := snd (snd around) @ [fst (quantified atom cs)],
                          psOpen := outer\<rparr>)))
      else if c = CHR ''[''
      then (case classOf cs of
              Returned found \<Rightarrow>
                parsePattern (snd (quantified (fst found) (snd found)))
                  (addTerm (fst (quantified (fst found) (snd found))) st)
            | Threw e \<Rightarrow> Threw e
            | Unmodelled \<Rightarrow> Unmodelled)
      else if c = CHR ''*'' \<or> c = CHR ''+'' \<or> c = CHR ''?'' then Threw SyntaxError
      else if c = CHR ''{'' then Unmodelled
      else if c = CHR ''^'' then parsePattern cs (addTerm Bol st)
      else if c = CHR ''$'' then parsePattern cs (addTerm Eol st)
      else if c = CHR ''.''
      then parsePattern (snd (quantified Dot cs)) (addTerm (fst (quantified Dot cs)) st)
      else if c = bs
      then (case cs of
              [] \<Rightarrow> Threw SyntaxError
            | d # r \<Rightarrow>
                if isAlnum d \<or> isLineTerminator d then Unmodelled
                else parsePattern (snd (quantified (Chr d) r)) (addTerm (fst (quantified (Chr d) r)) st))
      else parsePattern (snd (quantified (Chr c) cs)) (addTerm (fst (quantified (Chr c) cs)) st))"
  by pat_completeness auto
termination
  apply (relation "measure (\<lambda>(cs, st). length cs)")
  apply (auto simp: quantified_measure quantified_measure2 dest: class_measure)
  done

declare parsePattern.simps [simp del]

text \<open>\<^verbatim>\<open>new RegExp(text, flags)\<close>; the flags are given where the pattern is run.\<close>

definition RegExp :: "string \<Rightarrow> re outcome" where
  "RegExp text = parsePattern text \<lparr>psAlts = [], psTerms = [], psOpen = [], psNext = 1\<rparr>"

text \<open>The pattern of the opening delimiters of the kinds \<open>theoremTypes\<close>.\<close>

definition beginPattern :: "string list \<Rightarrow> re outcome" where
  "beginPattern theoremTypes = RegExp (beginSource theoremTypes)"

section \<open>Blocks\<close>

text \<open>
  The three tools build three kinds of records with the same first eight fields:
  \<^verbatim>\<open>Theorem\<close> (the extractor), \<^verbatim>\<open>IndexedTheorem\<close> (the indexer) and \<^verbatim>\<open>ProofResult\<close>
  (the proof finder). An optional field is \<open>None\<close> when it is \<^verbatim>\<open>undefined\<close>. The
  field \<^verbatim>\<open>id\<close> is \<open>ident\<close>, the field \<^verbatim>\<open>proof\<close> is \<open>proofText\<close>.
\<close>

record Block =
  type :: string
  name :: "string option"
  label :: "string option"
  statement :: string
  filePath :: string
  lineNumber :: nat
  endLineNumber :: nat
  rawContent :: string

record Theorem = Block +
  references :: "string list"
  symbols :: "string list"

record IndexedTheorem = Theorem +
  ident :: string
  dependencies :: "string list"
  dependents :: "string list"
  index :: nat

record ProofResult = Block +
  proofText :: "string option"
  proofStartLine :: "nat option"
  proofEndLine :: "nat option"
  rawProofContent :: "string option"
  hasProof :: bool

text \<open>An optional string is truthy when it is present and not empty.\<close>

definition truthy :: "string option \<Rightarrow> bool" where
  "truthy v = (case v of None \<Rightarrow> False | Some t \<Rightarrow> t \<noteq> [])"

section \<open>The block scanner\<close>

text \<open>An entry of \<^verbatim>\<open>theoremStack\<close>, one per opening delimiter.\<close>

record stackEntry =
  stackType :: string
  stackName :: "string option"
  stackLabel :: "string option"
  startLine :: nat
  startIndex :: nat

definition stackEntryOf :: "string \<Rightarrow> rmatch \<Rightarrow> stackEntry" where
  "stackEntryOf content m =
     \<lparr>stackType = toLowerCase (groupText m 1), stackName = mgroup m 2, stackLabel = mgroup m 3,
      startLine = getLineNumber content (mindex m), startIndex = mindex m\<rparr>"

text \<open>
  \<^verbatim>\<open>for (let i = currentTheorem; i < theoremStack.length; i++)\<close>: the first entry at or
  after \<open>i\<close> whose type is \<open>t\<close>.
\<close>

function findStart :: "stackEntry list \<Rightarrow> nat \<Rightarrow> string \<Rightarrow> nat option" where
  "findStart theoremStack i t =
     (if i < length theoremStack
      then (if stackType (theoremStack ! i) = t then Some i else findStart theoremStack (Suc i) t)
      else None)"
  by pat_completeness auto
termination
  by (relation "measure (\<lambda>(theoremStack, i, t). length theoremStack - i)") auto

declare findStart.simps [simp del]

definition generateTheoremId :: "string \<Rightarrow> string option \<Rightarrow> nat \<Rightarrow> string" where
  "generateTheoremId ty lab counter =
     (case lab of
        Some l \<Rightarrow> if l \<noteq> [] then l else ty @ ''_'' @ digits (counter + 1)
      | None \<Rightarrow> ty @ ''_'' @ digits (counter + 1))"

text \<open>
  The parameters of the three tools. They share the path and the kinds; the records of
  the extractor, the indexer and the proof finder add their own fields.
\<close>

record ToolParams =
  absolute_path :: string
  theorem_types :: "string list option"

record TheoremExtractorParams = ToolParams +
  extract_symbols :: "bool option"
  extract_references :: "bool option"

record TheoremIndexerParams = TheoremExtractorParams +
  build_dependencies :: "bool option"

record GetProofParams = ToolParams +
  theorem_identifier :: string
  fuzzy_match :: "bool option"

definition defaultTheoremTypes :: "string list" where
  "defaultTheoremTypes =
     [''theorem'', ''lemma'', ''corollary'', ''proposition'', ''definition'',
      ''example'', ''remark'', ''proof'', ''conjecture'', ''axiom'']"

text \<open>\<^verbatim>\<open>flag !== false\<close>\<close>

definition notFalse :: "bool option \<Rightarrow> bool" where
  "notFalse b = (b \<noteq> Some False)"

text \<open>
  The second pass is written three times in the source, once per tool, with the same
  loop: the copies differ in the record they build at a match (\<open>mk\<close> here, given the
  stack entry, the raw text, the line of the closing delimiter and the counter) and in
  the counter, which only the indexer keeps.
\<close>

record 'b scan =
  currentTheorem :: nat
  theoremCounter :: nat
  blocks :: "'b list"

text \<open>A closing delimiter: \<^verbatim>\<open>const [fullMatch, endType] = match; const endIndex = match.index;\<close>\<close>

record endEntry =
  fullMatch :: string
  endType :: string
  endIndex :: nat

definition endEntryOf :: "string \<Rightarrow> rmatch \<Rightarrow> endEntry" where
  "endEntryOf content m = \<lparr>fullMatch = mtext content m, endType = groupText m 1, endIndex = mindex m\<rparr>"

definition closeStep ::
  "(stackEntry \<Rightarrow> string \<Rightarrow> nat \<Rightarrow> nat \<Rightarrow> 'b) \<Rightarrow> string \<Rightarrow> stackEntry list \<Rightarrow> 'b scan \<Rightarrow> endEntry \<Rightarrow> 'b scan" where
  "closeStep mk content theoremStack st e =
     (case findStart theoremStack (currentTheorem st) (toLowerCase (endType e)) of
        None \<Rightarrow> st
      | Some i \<Rightarrow>
          (let theorem = theoremStack ! i;
               raw = substring content (startIndex theorem) (endIndex e + length (fullMatch e))
           in \<lparr>currentTheorem = i + 1, theoremCounter = theoremCounter st + 1,
               blocks = blocks st @ [mk theorem raw (getLineNumber content (endIndex e)) (theoremCounter st)]\<rparr>))"

definition secondPass ::
  "(stackEntry \<Rightarrow> string \<Rightarrow> nat \<Rightarrow> nat \<Rightarrow> 'b) \<Rightarrow> string \<Rightarrow> stackEntry list \<Rightarrow> endEntry list \<Rightarrow> 'b list" where
  "secondPass mk content theoremStack ends =
     blocks (foldl (closeStep mk content theoremStack)
               \<lparr>currentTheorem = 0, theoremCounter = 0, blocks = []\<rparr> ends)"

text \<open>
  The first loop, \<^verbatim>\<open>while ((match = beginPattern.exec(content)) !== null)\<close>, from
  \<^verbatim>\<open>lastIndex = i\<close>. At a match the signal is read first; then \<^verbatim>\<open>type.toLowerCase()\<close>
  throws a \<^verbatim>\<open>TypeError\<close> when the first group took no part in the match. After an
  empty match \<^verbatim>\<open>lastIndex\<close> stays where it is and the loop meets the same match again,
  without end: what becomes of the program then is not modelled.
\<close>

function firstPass :: "string \<Rightarrow> string \<Rightarrow> re \<Rightarrow> bool \<Rightarrow> nat \<Rightarrow> stackEntry list outcome" where
  "firstPass message content pat aborted i =
     (case execFrom flagI content pat i of
        None \<Rightarrow> Returned []
      | Some m \<Rightarrow>
          if aborted then Threw (Error message)
          else if mgroup m 1 = None then Threw TypeError
          else if mend m \<le> mindex m then Unmodelled
          else (case firstPass message content pat aborted (mend m) of
                  Returned rest \<Rightarrow> Returned (stackEntryOf content m # rest)
                | Threw e \<Rightarrow> Threw e
                | Unmodelled \<Rightarrow> Unmodelled))"
  by pat_completeness auto
termination
proof (relation "measure (\<lambda>(message, content, pat, aborted, i). Suc (length content) - i)")
  show "wf (measure (\<lambda>(message, content, pat, aborted, i). Suc (length content) - i))" by simp
next
  fix message content :: string and pat :: re and aborted :: bool and i :: nat and m
  assume a: "execFrom flagI content pat i = Some m" and b: "\<not> mend m \<le> mindex m"
  from execFrom_bounds [OF a] b have "i < mend m" "mend m \<le> length content"
    by linarith+
  then show "((message, content, pat, aborted, mend m), (message, content, pat, aborted, i))
      \<in> measure (\<lambda>(message, content, pat, aborted, i). Suc (length content) - i)"
    by simp
qed

declare firstPass.simps [simp del]

text \<open>The closing delimiters of a document, as the second loop meets them.\<close>

definition closingDelimiters :: "string \<Rightarrow> endEntry list" where
  "closingDelimiters content = map (endEntryOf content) (execAll flagI content endPattern 0)"

text \<open>
  The scan: the pattern is made, then the two passes run; the blocks come in the order
  of their closing delimiters. The signal is read at every match of either loop and
  cannot change during the scan (nothing is awaited): when it is aborted, the first
  match of the first loop throws, or else the first match of the second.
\<close>

definition scanBlocks ::
  "(stackEntry \<Rightarrow> string \<Rightarrow> nat \<Rightarrow> nat \<Rightarrow> 'b) \<Rightarrow> string \<Rightarrow> string list \<Rightarrow> string \<Rightarrow> bool \<Rightarrow> 'b list outcome" where
  "scanBlocks mk message theoremTypes content aborted =
     bindO (beginPattern theoremTypes)
       (\<lambda>pat. bindO (firstPass message content pat aborted 0)
          (\<lambda>theoremStack.
             (let ends = closingDelimiters content
              in if ends \<noteq> [] \<and> aborted then Threw (Error message)
                 else Returned (secondPass mk content theoremStack ends))))"

text \<open>The record of the indexer; \<^verbatim>\<open>index\<close> is the counter after its increment.\<close>

definition indexedTheoremOf ::
  "string \<Rightarrow> bool \<Rightarrow> bool \<Rightarrow> stackEntry \<Rightarrow> string \<Rightarrow> nat \<Rightarrow> nat \<Rightarrow> IndexedTheorem" where
  "indexedTheoremOf path withReferences withSymbols theorem raw endLine counter =
     \<lparr>type = stackType theorem, name = stackName theorem, label = stackLabel theorem,
      statement = extractStatement raw, filePath = path,
      lineNumber = startLine theorem, endLineNumber = endLine, rawContent = raw,
      references = (if withReferences then extractReferences raw else []),
      symbols = (if withSymbols then extractSymbols raw else []),
      ident = generateTheoremId (stackType theorem) (stackLabel theorem) counter,
      dependencies = [], dependents = [], index = counter + 1\<rparr>"

text \<open>The record of the extractor.\<close>

definition theoremOf ::
  "string \<Rightarrow> bool \<Rightarrow> bool \<Rightarrow> stackEntry \<Rightarrow> string \<Rightarrow> nat \<Rightarrow> nat \<Rightarrow> Theorem" where
  "theoremOf path withReferences withSymbols theorem raw endLine counter =
     \<lparr>type = stackType theorem, name = stackName theorem, label = stackLabel theorem,
      statement = extractStatement raw, filePath = path,
      lineNumber = startLine theorem, endLineNumber = endLine, rawContent = raw,
      references = (if withReferences then extractReferences raw else []),
      symbols = (if withSymbols then extractSymbols raw else [])\<rparr>"

text \<open>
  The record of the proof finder, which looks for a labeling command in the raw text
  when the opening delimiter gave no label.
\<close>

definition proofResultOf :: "string \<Rightarrow> stackEntry \<Rightarrow> string \<Rightarrow> nat \<Rightarrow> nat \<Rightarrow> ProofResult" where
  "proofResultOf path theorem raw endLine counter =
     \<lparr>type = stackType theorem, name = stackName theorem,
      label = (if truthy (stackLabel theorem) then stackLabel theorem
               else case execFrom noFlags raw labelArgPattern 0 of
                      Some labelMatch \<Rightarrow> mgroup labelMatch 1
                    | None \<Rightarrow> stackLabel theorem),
      statement = extractStatement raw, filePath = path,
      lineNumber = startLine theorem, endLineNumber = endLine, rawContent = raw,
      proofText = None, proofStartLine = None, proofEndLine = None, rawProofContent = None,
      hasProof = False\<rparr>"

text \<open>The scans of \<^verbatim>\<open>indexTheorems\<close>, \<^verbatim>\<open>extractTheorems\<close> and \<^verbatim>\<open>extractAllTheorems\<close>.\<close>

definition theoremTypesOf :: "'a ToolParams_scheme \<Rightarrow> string list \<Rightarrow> string list" where
  "theoremTypesOf params dflt = (case theorem_types params of Some ts \<Rightarrow> ts | None \<Rightarrow> dflt)"

definition indexerScanBlocks ::
  "string \<Rightarrow> string \<Rightarrow> TheoremIndexerParams \<Rightarrow> bool \<Rightarrow> IndexedTheorem list outcome" where
  "indexerScanBlocks content path params aborted =
     scanBlocks (indexedTheoremOf path (notFalse (extract_references params))
                   (notFalse (extract_symbols params)))
       ''Theorem indexing was aborted'' (theoremTypesOf params defaultTheoremTypes) content aborted"

definition extractorScanBlocks ::
  "string \<Rightarrow> string \<Rightarrow> TheoremExtractorParams \<Rightarrow> bool \<Rightarrow> Theorem list outcome" where
  "extractorScanBlocks content path params aborted =
     scanBlocks (theoremOf path (notFalse (extract_references params))
                   (notFalse (extract_symbols params)))
       ''Theorem extraction was aborted'' (theoremTypesOf params defaultTheoremTypes) content aborted"

definition extractAllTheorems ::
  "string \<Rightarrow> string \<Rightarrow> string list \<Rightarrow> bool \<Rightarrow> ProofResult list outcome" where
  "extractAllTheorems content path theoremTypes aborted =
     scanBlocks (proofResultOf path) ''Proof extraction was aborted'' theoremTypes content aborted"

section \<open>The index builder\<close>

text \<open>
  \<^verbatim>\<open>buildIndex\<close> stores each block object in the table \<^verbatim>\<open>theorems\<close> and later appends to
  the \<^verbatim>\<open>dependencies\<close> and \<^verbatim>\<open>dependents\<close> of these objects, which are the objects of
  the list it was given. The list is the store here: the table \<open>theorems\<close> holds the
  position of a block in the list, and \<open>buildIndex\<close> returns the index together with
  the list as the calls have left it.
\<close>

record TheoremIndex =
  labelToId :: "string dict"
  theorems :: "nat dict"
  typeIndex :: "string list dict"
  symbolIndex :: "string list dict"
  dependencyGraph :: "string list dict"
  reverseDependencyGraph :: "string list dict"

definition emptyIndex :: TheoremIndex where
  "emptyIndex =
     \<lparr>labelToId = [], theorems = [], typeIndex = [], symbolIndex = [],
      dependencyGraph = [], reverseDependencyGraph = []\<rparr>"

text \<open>
  \<^verbatim>\<open>if (!d[k]) { d[k] = []; } d[k].push(x);\<close> An inherited value is truthy and has no
  \<^verbatim>\<open>push\<close>: the call throws a \<^verbatim>\<open>TypeError\<close>.
\<close>

definition pushInit :: "string list dict \<Rightarrow> string \<Rightarrow> string \<Rightarrow> string list dict outcome" where
  "pushInit d k x =
     (case dictGet d k of
        Undefined \<Rightarrow> Returned (dictSet d k [x])
      | Own xs \<Rightarrow> Returned (dictSet d k (xs @ [x]))
      | Inherited \<Rightarrow> Threw TypeError)"

text \<open>\<^verbatim>\<open>d[k].push(x);\<close>\<close>

definition pushAt :: "string list dict \<Rightarrow> string \<Rightarrow> string \<Rightarrow> string list dict outcome" where
  "pushAt d k x =
     (case dictGet d k of
        Own xs \<Rightarrow> Returned (dictSet d k (xs @ [x]))
      | Undefined \<Rightarrow> Threw TypeError
      | Inherited \<Rightarrow> Threw TypeError)"

text \<open>
  The body of the first loop, for the block at position \<open>pos\<close>. Assigning a string to
  \<^verbatim>\<open>labelToId['__proto__']\<close> changes nothing. For a block whose identifier is
  \<^verbatim>\<open>__proto__\<close> the assignments to \<^verbatim>\<open>theorems\<close> and to the two graphs replace the
  prototype of these tables: this is not modelled.
\<close>

definition indexBasic :: "IndexedTheorem \<Rightarrow> nat \<Rightarrow> TheoremIndex \<Rightarrow> TheoremIndex outcome" where
  "indexBasic theorem pos idx =
     (let idx = (case label theorem of
                   None \<Rightarrow> idx
                 | Some l \<Rightarrow> if l \<noteq> [] \<and> l \<noteq> ''__proto__''
                            then idx\<lparr>labelToId := dictSet (labelToId idx) l (ident theorem)\<rparr>
                            else idx)
      in if ident theorem = ''__proto__'' then Unmodelled
         else
           (let idx = idx\<lparr>theorems := dictSet (theorems idx) (ident theorem) pos\<rparr>
            in bindO (pushInit (typeIndex idx) (type theorem) (ident theorem))
                 (\<lambda>ti. bindO (forEachO (symbols theorem)
                                  (\<lambda>symbol si. pushInit si symbol (ident theorem)) (symbolIndex idx))
                   (\<lambda>si. Returned
                      (idx\<lparr>typeIndex := ti, symbolIndex := si,
                           dependencyGraph := dictSet (dependencyGraph idx) (ident theorem) [],
                           reverseDependencyGraph :=
                             dictSet (reverseDependencyGraph idx) (ident theorem) []\<rparr>)))))"

text \<open>
  The body of the second loop, for one reference of the block at position \<open>i\<close>. When
  \<^verbatim>\<open>labelToId[reference]\<close> is an inherited value the guard lets it through, the value is
  pushed on the forward graph and then used as a key of the reverse graph, where there
  is nothing to push on: a \<^verbatim>\<open>TypeError\<close>, unless a block has this very key for its
  identifier (not modelled: the lists would then hold a value that is not a string).
\<close>

definition addDependency ::
  "nat \<Rightarrow> string \<Rightarrow> TheoremIndex \<times> IndexedTheorem list \<Rightarrow> (TheoremIndex \<times> IndexedTheorem list) outcome" where
  "addDependency i reference state =
     (let idx = fst state; ths = snd state; theorem = ths ! i
      in case dictGet (labelToId idx) reference of
           Undefined \<Rightarrow> Returned (idx, ths)
         | Inherited \<Rightarrow>
             bindO (pushAt (dependencyGraph idx) (ident theorem) reference)
               (\<lambda>dg. if inheritedKeyText reference \<in> set (map fst (reverseDependencyGraph idx))
                      then Unmodelled else Threw TypeError)
         | Own referencedId \<Rightarrow>
             if referencedId \<noteq> [] \<and> referencedId \<noteq> ident theorem
             then bindO (pushAt (dependencyGraph idx) (ident theorem) referencedId)
                    (\<lambda>dg. bindO (pushAt (reverseDependencyGraph idx) referencedId (ident theorem))
                      (\<lambda>rg. let idx = idx\<lparr>dependencyGraph := dg, reverseDependencyGraph := rg\<rparr>;
                                 ths = ths[i := (ths ! i)\<lparr>dependencies := dependencies (ths ! i) @ [referencedId]\<rparr>]
                             in case dictGet (theorems idx) referencedId of
                                  Undefined \<Rightarrow> Returned (idx, ths)
                                | Inherited \<Rightarrow> Threw TypeError
                                | Own j \<Rightarrow>
                                    Returned (idx, ths[j := (ths ! j)\<lparr>dependents := dependents (ths ! j) @ [ident theorem]\<rparr>])))
             else Returned (idx, ths))"

definition buildIndex ::
  "IndexedTheorem list \<Rightarrow> bool \<Rightarrow> (TheoremIndex \<times> IndexedTheorem list) outcome" where
  "buildIndex ths buildDependencies =
     bindO (forEachO (enumerate 0 ths) (\<lambda>entry idx. indexBasic (snd entry) (fst entry) idx) emptyIndex)
       (\<lambda>idx. if buildDependencies
               then forEachO (enumerate 0 ths)
                      (\<lambda>entry state. forEachO (references (snd entry)) (addDependency (fst entry)) state)
                      (idx, ths)
               else Returned (idx, ths))"

section \<open>The cycle detector\<close>

record dfsState =
  cycles :: "string list list"
  visited :: "string list"
  recursionStack :: "string list"

text \<open>\<^verbatim>\<open>path.slice(path.indexOf(node))\<close>; for the index \<open>-1\<close> the slice is the last element.\<close>

fun sliceFrom :: "string list \<Rightarrow> string \<Rightarrow> string list" where
  "sliceFrom [] node = []"
| "sliceFrom (x # xs) node =
     (if x = node then x # xs
      else if node \<in> set xs then sliceFrom xs node
      else [last (x # xs)])"

text \<open>
  The recursive search \<^verbatim>\<open>dfs\<close>. Its recursion is bounded here by a depth \<open>n\<close>: a call
  that finds the bound used up has the value \<open>Unmodelled\<close>, which does not happen with
  the depth that \<open>detectCyclicDependencies\<close> gives (shown below). The path is pushed before
  the loop and popped after it; the embedding hands the longer path to the calls of
  the loop. \<^verbatim>\<open>dependencyGraph[node] || []\<close> is not iterable when it is inherited.
\<close>

fun dfs :: "nat \<Rightarrow> string list dict \<Rightarrow> string \<Rightarrow> string list \<Rightarrow> dfsState \<Rightarrow> dfsState outcome"
  and dfsEach :: "nat \<Rightarrow> string list dict \<Rightarrow> string list \<Rightarrow> string list \<Rightarrow> dfsState \<Rightarrow> dfsState outcome" where
  "dfs 0 g node path st = Unmodelled"
| "dfs (Suc n) g node path st =
     (if node \<in> set (recursionStack st)
      then Returned (st\<lparr>cycles := cycles st @ [sliceFrom path node @ [node]]\<rparr>)
      else if node \<in> set (visited st) then Returned st
      else
        (let st = st\<lparr>visited := visited st @ [node], recursionStack := recursionStack st @ [node]\<rparr>
         in bindO (case dictGet g node of
                     Own deps \<Rightarrow> dfsEach n g deps (path @ [node]) st
                   | Undefined \<Rightarrow> Returned st
                   | Inherited \<Rightarrow> Threw TypeError)
              (\<lambda>st. Returned (st\<lparr>recursionStack := removeAll node (recursionStack st)\<rparr>))))"
| "dfsEach n g [] path st = Returned st"
| "dfsEach n g (dep # deps) path st = bindO (dfs n g dep path st) (dfsEach n g deps path)"

text \<open>No path is longer than the number of names in the graph.\<close>

definition depthBound :: "string list dict \<Rightarrow> nat" where
  "depthBound g = Suc (length (remdups (map fst g @ concat (map snd g))))"

definition detectCyclicDependencies :: "string list dict \<Rightarrow> string list list outcome" where
  "detectCyclicDependencies g =
     bindO (forEachO (map fst g)
              (\<lambda>node st. if node \<notin> set (visited st) then dfs (depthBound g) g node [] st
                          else Returned st)
              \<lparr>cycles = [], visited = [], recursionStack = []\<rparr>)
       (\<lambda>st. Returned (cycles st))"

section \<open>The summary and the indexer\<close>

record IndexingSummary =
  totalTheorems :: nat
  theoremsByType :: "nat dict"
  uniqueSymbols :: "string list"
  totalReferences :: nat
  totalDependencies :: nat
  orphanedTheorems :: nat
  cyclicDependencies :: "string list list"

text \<open>
  \<^verbatim>\<open>counts[t] = (counts[t] || 0) + 1\<close>. For an inherited name the sum is a string (not
  modelled).
\<close>

definition countType :: "string \<Rightarrow> nat dict \<Rightarrow> nat dict outcome" where
  "countType t counts =
     (case dictGet counts t of
        Undefined \<Rightarrow> Returned (dictSet counts t 1)
      | Own n \<Rightarrow> Returned (dictSet counts t (n + 1))
      | Inherited \<Rightarrow> Unmodelled)"

definition generateIndexingSummary :: "IndexedTheorem list \<Rightarrow> TheoremIndex \<Rightarrow> IndexingSummary outcome" where
  "generateIndexingSummary ths idx =
     bindO (forEachO ths (\<lambda>theorem counts. countType (type theorem) counts) [])
       (\<lambda>counts. bindO (detectCyclicDependencies (dependencyGraph idx))
          (\<lambda>cyclic. Returned
             \<lparr>totalTheorems = length ths,
              theoremsByType = counts,
              uniqueSymbols = sort (setOf (concat (map symbols ths))),
              totalReferences = sum_list (map (\<lambda>theorem. length (references theorem)) ths),
              totalDependencies = sum_list (map (\<lambda>theorem. length (dependencies theorem)) ths),
              orphanedTheorems =
                length (filter (\<lambda>theorem. dependencies theorem = [] \<and> dependents theorem = []) ths),
              cyclicDependencies = cyclic\<rparr>))"

record TheoremIndexingResult =
  resultIndex :: TheoremIndex
  resultTheorems :: "IndexedTheorem list"
  resultSummary :: IndexingSummary

definition indexTheorems ::
  "string \<Rightarrow> string \<Rightarrow> TheoremIndexerParams \<Rightarrow> bool \<Rightarrow> TheoremIndexingResult outcome" where
  "indexTheorems content path params aborted =
     bindO (indexerScanBlocks content path params aborted)
       (\<lambda>ths. bindO (buildIndex ths (notFalse (build_dependencies params)))
          (\<lambda>built. bindO (generateIndexingSummary (snd built) (fst built))
             (\<lambda>summary. Returned
                \<lparr>resultIndex = fst built, resultTheorems = snd built, resultSummary = summary\<rparr>)))"


section \<open>The extractor\<close>

record ExtractionSummary =
  extractedTotal :: nat
  extractedByType :: "nat dict"
  extractedSymbols :: "string list"
  extractedReferences :: nat

definition generateSummary :: "Theorem list \<Rightarrow> ExtractionSummary outcome" where
  "generateSummary ths =
     bindO (forEachO ths (\<lambda>theorem counts. countType (type theorem) counts) [])
       (\<lambda>counts. Returned
          \<lparr>extractedTotal = length ths,
           extractedByType = counts,
           extractedSymbols = sort (setOf (concat (map symbols ths))),
           extractedReferences = sum_list (map (\<lambda>theorem. length (references theorem)) ths)\<rparr>)"

definition extractTheorems ::
  "string \<Rightarrow> string \<Rightarrow> TheoremExtractorParams \<Rightarrow> bool \<Rightarrow> (Theorem list \<times> ExtractionSummary) outcome" where
  "extractTheorems content path params aborted =
     bindO (extractorScanBlocks content path params aborted)
       (\<lambda>ths. bindO (generateSummary ths) (\<lambda>summary. Returned (ths, summary)))"

section \<open>The proof finder\<close>

text \<open>
  The score of one candidate: the value of \<^verbatim>\<open>score\<close> at the end of the loop body. The
  source computes it in double precision; the values it takes are 0, 40, 70, 80, 100
  and \<open>w / n * 60\<close> for \<open>w\<close> of the \<open>n\<close> words of the query, and every comparison the
  source makes on them (with one another and with 30) has the outcome it has in exact
  arithmetic, which the embedding uses.
\<close>

definition wordMatchCount :: "string \<Rightarrow> string list \<Rightarrow> nat" where
  "wordMatchCount statementLower ws =
     length (filter (\<lambda>word. 2 < length word \<and> includesStr statementLower word) ws)"

definition candidateScore :: "bool \<Rightarrow> string \<Rightarrow> ProofResult \<Rightarrow> rat" where
  "candidateScore fuzzyMatch query theorem =
     (let score = 0;
          score = (case name theorem of
                     Some n \<Rightarrow> if n \<noteq> [] \<and> toLowerCase n = query then 100 else score
                   | None \<Rightarrow> score);
          score = (case label theorem of
                     Some l \<Rightarrow> if l \<noteq> [] \<and> includesStr (toLowerCase l) query then max score 80 else score
                   | None \<Rightarrow> score);
          score = (case name theorem of
                     Some n \<Rightarrow> if n \<noteq> [] \<and> includesStr (toLowerCase n) query then max score 70 else score
                   | None \<Rightarrow> score);
          score = (if fuzzyMatch
                   then (let statementLower = toLowerCase (statement theorem);
                             ws = splitRe noFlags query (Plus space);
                             wordMatches = wordMatchCount statementLower ws
                         in if 0 < wordMatches
                            then max score (of_nat wordMatches / of_nat (length ws) * 60)
                            else score)
                   else score);
          score = (if includesStr (toLowerCase (type theorem)) query then max score 40 else score)
      in score)"

text \<open>\<^verbatim>\<open>theorem.label && theorem.label.toLowerCase() === query\<close>\<close>

definition exactLabel :: "string \<Rightarrow> ProofResult \<Rightarrow> bool" where
  "exactLabel query theorem =
     (case label theorem of Some l \<Rightarrow> l \<noteq> [] \<and> toLowerCase l = query | None \<Rightarrow> False)"

text \<open>
  The loop over the candidates: \<open>Inl\<close> is the early return of a candidate whose label
  is the query, \<open>Inr\<close> the best match and the best score when the loop ends.
\<close>

fun bestMatchLoop ::
  "bool \<Rightarrow> string \<Rightarrow> ProofResult list \<Rightarrow> ProofResult option \<times> rat \<Rightarrow> ProofResult + ProofResult option \<times> rat" where
  "bestMatchLoop fuzzyMatch query [] best = Inr best"
| "bestMatchLoop fuzzyMatch query (theorem # rest) best =
     (if exactLabel query theorem then Inl theorem
      else if snd best < candidateScore fuzzyMatch query theorem
           then bestMatchLoop fuzzyMatch query rest (Some theorem, candidateScore fuzzyMatch query theorem)
           else bestMatchLoop fuzzyMatch query rest best)"

definition findBestMatch :: "ProofResult list \<Rightarrow> string \<Rightarrow> bool \<Rightarrow> ProofResult option" where
  "findBestMatch ths identifier fuzzyMatch =
     (let query = trim (toLowerCase identifier)
      in case bestMatchLoop fuzzyMatch query ths (None, 0) of
           Inl theorem \<Rightarrow> Some theorem
         | Inr best \<Rightarrow> if 30 < snd best then fst best else None)"

definition extractProofStatement :: "string \<Rightarrow> string" where
  "extractProofStatement rawProof =
     (case (execFrom flagI rawProof proofBeginPattern 0, execFrom flagI rawProof proofEndPattern 0) of
        (Some beginMatch, Some endMatch) \<Rightarrow>
          (let start = mindex beginMatch + length (mtext rawProof beginMatch);
               end' = (case lastIndexOf rawProof (mtext rawProof endMatch) of
                         Some e \<Rightarrow> e | None \<Rightarrow> 0);
               statement = trim (substring rawProof start end');
               statement = replaceAllG flagM statement leadingBlankPattern 0;
               statement = replaceAllG flagM statement trailingBlankPattern 0
           in statement)
      | _ \<Rightarrow> trim rawProof)"

record ProofInfo =
  infoProof :: "string option"
  infoRawProofContent :: "string option"
  infoProofStartLine :: "nat option"
  infoProofEndLine :: "nat option"

definition noProof :: ProofInfo where
  "noProof = \<lparr>infoProof = None, infoRawProofContent = None, infoProofStartLine = None,
              infoProofEndLine = None\<rparr>"

text \<open>
  \<^verbatim>\<open>content.indexOf(theorem.rawContent) + theorem.rawContent.length\<close>: the raw text is never
  empty, so the sum is not negative when the search gives \<open>-1\<close>.
\<close>

definition findProofForTheorem :: "string \<Rightarrow> ProofResult \<Rightarrow> ProofInfo" where
  "findProofForTheorem content theorem =
     (let theoremEndIndex = (case indexOf content (rawContent theorem) of
                               Some i \<Rightarrow> i + length (rawContent theorem)
                             | None \<Rightarrow> length (rawContent theorem) - 1);
          remainingContent = substringFrom content theoremEndIndex
      in case execFrom flagI remainingContent proofBeginPattern 0 of
           None \<Rightarrow> noProof
         | Some proofBeginMatch \<Rightarrow>
             (let proofStartIndex = theoremEndIndex + mindex proofBeginMatch;
                  proofContent = substringFrom content proofStartIndex
              in case execFrom flagI proofContent proofEndPattern 0 of
                   None \<Rightarrow> noProof
                 | Some proofEndMatch \<Rightarrow>
                     (let proofEndIndex = proofStartIndex + mindex proofEndMatch
                                            + length (mtext proofContent proofEndMatch);
                          raw = substring content proofStartIndex proofEndIndex
                      in \<lparr>infoProof = Some (extractProofStatement raw),
                          infoRawProofContent = Some raw,
                          infoProofStartLine = Some (getLineNumber content proofStartIndex),
                          infoProofEndLine = Some (getLineNumber content proofEndIndex)\<rparr>)))"

record GetProofResult =
  result :: "ProofResult option"
  found :: bool
  errorMessage :: "string option"
  potentialMatches :: "ProofResult list"

definition getProofTheoremTypes :: "string list" where
  "getProofTheoremTypes =
     [''theorem'', ''lemma'', ''corollary'', ''proposition'', ''definition'',
      ''example'', ''remark'', ''conjecture'', ''axiom'']"

text \<open>What \<^verbatim>\<open>findProof\<close> does with the candidates once they are extracted.\<close>

definition resolveProof :: "string \<Rightarrow> GetProofParams \<Rightarrow> ProofResult list \<Rightarrow> GetProofResult" where
  "resolveProof content params ths =
     (case findBestMatch ths (theorem_identifier params) (notFalse (fuzzy_match params)) of
        None \<Rightarrow>
          \<lparr>result = None, found = False,
           errorMessage = Some (''No theorem found matching '' @ [CHR 0x22] @ theorem_identifier params @ [CHR 0x22]),
           potentialMatches = take 5 ths\<rparr>
      | Some bestMatch \<Rightarrow>
          (let proofContent = findProofForTheorem content bestMatch
           in \<lparr>result = Some (bestMatch
                  \<lparr>proofText := infoProof proofContent,
                   rawProofContent := infoRawProofContent proofContent,
                   proofStartLine := infoProofStartLine proofContent,
                   proofEndLine := infoProofEndLine proofContent,
                   hasProof := truthy (infoProof proofContent)\<rparr>),
               found = True, errorMessage = None, potentialMatches = []\<rparr>))"

definition findProof :: "string \<Rightarrow> string \<Rightarrow> GetProofParams \<Rightarrow> bool \<Rightarrow> GetProofResult outcome" where
  "findProof content path params aborted =
     bindO (extractAllTheorems content path (theoremTypesOf params getProofTheoremTypes) aborted)
       (\<lambda>ths. Returned (resolveProof content params ths))"


section \<open>Documents and parameters used below\<close>

definition returned :: "'a outcome \<Rightarrow> 'a option" where
  "returned r = (case r of Returned x \<Rightarrow> Some x | Threw e \<Rightarrow> None | Unmodelled \<Rightarrow> None)"

definition defaultIndexerParams :: TheoremIndexerParams where
  "defaultIndexerParams =
     \<lparr>absolute_path = ''/doc.tex'', theorem_types = None, extract_symbols = None,
      extract_references = None, build_dependencies = None\<rparr>"

definition defaultExtractorParams :: TheoremExtractorParams where
  "defaultExtractorParams =
     \<lparr>absolute_path = ''/doc.tex'', theorem_types = None, extract_symbols = None,
      extract_references = None\<rparr>"

text \<open>\<^verbatim>\<open>$\alpha + \beta$\<close>\<close>

definition alphaBeta :: string where
  "alphaBeta = ''$'' @ bs # ''alpha + '' @ bs # ''beta$''"

text \<open>\<^verbatim>\<open>\eqref{a} \ref{b}\<close>\<close>

definition eqrefThenRef :: string where
  "eqrefThenRef = bs # ''eqref{a} '' @ bs # ''ref{b}''"

text \<open>\<^verbatim>\<open>\begin{theorem}\label{X}a\end{theorem}\<close>\<close>

definition labelledInside :: string where
  "labelledInside = bs # ''begin{theorem}'' @ bs # ''label{X}a'' @ bs # ''end{theorem}''"

text \<open>\<^verbatim>\<open>\begin{theorem}\ref{constructor}\end{theorem}\<close>\<close>

definition refConstructor :: string where
  "refConstructor = bs # ''begin{theorem}'' @ bs # ''ref{constructor}'' @ bs # ''end{theorem}''"

text \<open>\<^verbatim>\<open>\begin{theorem}{L}a\end{theorem}\begin{lemma}{L}b\end{lemma}\<close>\<close>

definition sameLabelTwice :: string where
  "sameLabelTwice =
     bs # ''begin{theorem}{L}a'' @ bs # ''end{theorem}'' @ bs # ''begin{lemma}{L}b'' @ bs # ''end{lemma}''"

text \<open>
  The references of a text in the order in which they first occur in it, whichever of
  the two commands introduces them: one scan for \<^verbatim>\<open>\\(?:ref|eqref)\{([^}]+)\}\<close>.
\<close>

definition referencePattern :: lpattern where
  "referencePattern =
     (bs, seqs [alts [lit ''ref{'', lit ''eqref{''], Group 1 (Plus (notChar CHR ''}'')), Chr CHR ''}''])"

definition firstSeenReferences :: "string \<Rightarrow> string list" where
  "firstSeenReferences content = setOf (commandArguments referencePattern content)"

text \<open>
  The rules of the matcher in the words of the specification: name equality scores 100,
  the label containing the query 80, the name containing it 70, the kind containing it
  40, and the share of the words of the query found in the statement up to 60; the
  score is the greatest of the values that apply.
\<close>

definition nameEquals :: "string \<Rightarrow> ProofResult \<Rightarrow> bool" where
  "nameEquals query t = (case name t of Some n \<Rightarrow> n \<noteq> [] \<and> toLowerCase n = query | None \<Rightarrow> False)"

definition labelContains :: "string \<Rightarrow> ProofResult \<Rightarrow> bool" where
  "labelContains query t =
     (case label t of Some l \<Rightarrow> l \<noteq> [] \<and> includesStr (toLowerCase l) query | None \<Rightarrow> False)"

definition nameContains :: "string \<Rightarrow> ProofResult \<Rightarrow> bool" where
  "nameContains query t =
     (case name t of Some n \<Rightarrow> n \<noteq> [] \<and> includesStr (toLowerCase n) query | None \<Rightarrow> False)"

definition kindContains :: "string \<Rightarrow> ProofResult \<Rightarrow> bool" where
  "kindContains query t = includesStr (toLowerCase (type t)) query"

definition ruleScore :: "string \<Rightarrow> ProofResult \<Rightarrow> rat" where
  "ruleScore query t =
     Max {0,
          if nameEquals query t then 100 else 0,
          if labelContains query t then 80 else 0,
          if nameContains query t then 70 else 0,
          if kindContains query t then 40 else 0}"

definition wordOverlapScore :: "string \<Rightarrow> ProofResult \<Rightarrow> rat" where
  "wordOverlapScore query t =
     (let ws = splitRe noFlags query (Plus space);
          wordMatches = wordMatchCount (toLowerCase (statement t)) ws
      in if 0 < wordMatches then of_nat wordMatches / of_nat (length ws) * 60 else 0)"


text \<open>Seven candidates, and the parameters of a query.\<close>

definition candidate :: "string \<Rightarrow> string option \<Rightarrow> string option \<Rightarrow> string \<Rightarrow> ProofResult" where
  "candidate ty nm lab st =
     \<lparr>type = ty, name = nm, label = lab, statement = st, filePath = ''/doc.tex'',
      lineNumber = 1, endLineNumber = 1, rawContent = [],
      proofText = None, proofStartLine = None, proofEndLine = None, rawProofContent = None,
      hasProof = False\<rparr>"

definition sevenCandidates :: "ProofResult list" where
  "sevenCandidates =
     map (\<lambda>k. candidate ''lemma'' (Some (''step '' @ digits k)) (Some (''lem:'' @ digits k))
                 ''a bound on the sum'')
         [1, 2, 3, 4, 5, 6, 7]"

definition getProofParams :: "string \<Rightarrow> bool option \<Rightarrow> GetProofParams" where
  "getProofParams identifier fuzzy =
     \<lparr>absolute_path = ''/doc.tex'', theorem_types = None, theorem_identifier = identifier,
      fuzzy_match = fuzzy\<rparr>"

text \<open>The lists \<open>[a, b, c, a]\<close>, \<open>[b, c, a, b]\<close>, \<open>[c, a, b, c]\<close> of a cycle \<open>[a, b, c]\<close>.\<close>

definition closedRotations :: "'a list \<Rightarrow> 'a list list" where
  "closedRotations xs = map (\<lambda>k. rotate k xs @ [hd (rotate k xs)]) [0..<length xs]"


definition emptySummary :: IndexingSummary where
  "emptySummary =
     \<lparr>totalTheorems = 0, theoremsByType = [], uniqueSymbols = [], totalReferences = 0,
      totalDependencies = 0, orphanedTheorems = 0, cyclicDependencies = []\<rparr>"

definition emptyIndexingResult :: TheoremIndexingResult where
  "emptyIndexingResult =
     \<lparr>resultIndex = emptyIndex, resultTheorems = [], resultSummary = emptySummary\<rparr>"

text \<open>A text without a delimiter.\<close>

definition plainText :: string where
  "plainText = ''No delimiter here.''"

text \<open>
  A kind that is a plain word: none of its characters has a meaning in the pattern
  language. For such kinds an opening delimiter of a recognized kind is
  \<^verbatim>\<open>\begin{k}\<close>, for a kind \<open>k\<close> of the list read letter by letter (letter case apart),
  with its optional arguments \<^verbatim>\<open>[...]\<close> and \<^verbatim>\<open>{...}\<close>: \<open>literalBeginPattern\<close>, and
  \<open>openingDelimiters\<close> are its matches in a document.
\<close>

definition plainKind :: "string \<Rightarrow> bool" where
  "plainKind k = list_all (\<lambda>c. c \<notin> set (bs # ''^$.|?*+()[]{}'')) k"

definition literalBeginPattern :: "string list \<Rightarrow> lpattern" where
  "literalBeginPattern kinds =
     (bs, seqs (map Chr ''begin{'' @
                [Group 1 (alts (map (\<lambda>k. seqs (map Chr k)) kinds)), Chr CHR ''}'',
                 Opt (seqs [Chr CHR ''['', Group 2 (LazyStar Dot), Chr CHR '']'']),
                 Opt (seqs [Chr CHR ''{'', Group 3 (LazyStar Dot), Chr CHR ''}''])]))"

definition openingDelimiters :: "string list \<Rightarrow> string \<Rightarrow> stackEntry list" where
  "openingDelimiters kinds content =
     map (stackEntryOf content) (execAll flagI content (literalBeginPattern kinds) 0)"

text \<open>
  A kind with a star, and documents with a block and with an opening delimiter of this
  kind: \<^verbatim>\<open>\begin{theorem*}a\end{theorem*}\<close> and \<^verbatim>\<open>\begin{theorem*}x\<close>.
\<close>

definition starredKinds :: "string list" where
  "starredKinds = [''theorem*'']"


definition starredOpening :: string where
  "starredOpening = bs # ''begin{theorem*}x''"

definition starredIndexerParams :: TheoremIndexerParams where
  "starredIndexerParams =
     \<lparr>absolute_path = ''/doc.tex'', theorem_types = Some starredKinds, extract_symbols = None,
      extract_references = None, build_dependencies = None\<rparr>"








subsection \<open>Notions used to state what the index builder and the cycle detector do\<close>

text \<open>The names that occur in a graph, as keys or in the lists.\<close>

definition graphNames :: "string list dict \<Rightarrow> string set" where
  "graphNames g = set (map fst g @ concat (map snd g))"

text \<open>
  A block none of whose identifier, kind, symbols and references is a name that every
  object inherits; and the set of the entries that a table of lists has at a key.
\<close>

definition plainBlock :: "IndexedTheorem \<Rightarrow> bool" where
  "plainBlock t =
     (ident t \<noteq> ''__proto__'' \<and> type t \<notin> set objectPrototypeKeys
      \<and> list_all (\<lambda>s. s \<notin> set objectPrototypeKeys) (symbols t)
      \<and> list_all (\<lambda>r. r \<notin> set objectPrototypeKeys) (references t))"

definition entriesAt :: "string list dict \<Rightarrow> string \<Rightarrow> string set" where
  "entriesAt d k = (case map_of d k of Some xs \<Rightarrow> set xs | None \<Rightarrow> {})"

text \<open>What the first loop keeps true: the keys of the graphs and of the table of the blocks
  are the identifiers met so far, the label map sends labels to such identifiers, the
  table of the blocks holds positions below the position reached.\<close>

definition basicInv :: "string set \<Rightarrow> nat \<Rightarrow> TheoremIndex \<Rightarrow> bool" where
  "basicInv S p idx =
     (dom (map_of (dependencyGraph idx)) = S \<and> dom (map_of (reverseDependencyGraph idx)) = S
      \<and> dom (map_of (theorems idx)) = S
      \<and> ran (map_of (labelToId idx)) \<subseteq> S
      \<and> ran (map_of (theorems idx)) \<subseteq> {..<p})"

text \<open>
  The state of the second loop is the index and the list of the blocks. In this loop the
  label map \<open>L\<close> and the table of the blocks \<open>T\<close> stay as the first loop left them
  (\<open>tablesOk\<close>, \<open>depInv\<close>), the graphs and the lists of the blocks only grow (\<open>grows\<close>), and
  \<open>edgeRecorded\<close> says that the edge of the reference \<open>r\<close> of the block at position \<open>i\<close>
  is in the two graphs and in the two lists.
\<close>

type_synonym indexState = "TheoremIndex \<times> IndexedTheorem list"

definition tablesOk :: "IndexedTheorem list \<Rightarrow> string dict \<Rightarrow> nat dict \<Rightarrow> bool" where
  "tablesOk ths L T =
     (ran (map_of L) \<subseteq> ident ` set ths \<and> dom (map_of T) = ident ` set ths
      \<and> ran (map_of T) \<subseteq> {..<length ths})"

definition depInv :: "IndexedTheorem list \<Rightarrow> string dict \<Rightarrow> nat dict \<Rightarrow> indexState \<Rightarrow> bool" where
  "depInv ths L T st =
     (labelToId (fst st) = L \<and> theorems (fst st) = T
      \<and> dom (map_of (dependencyGraph (fst st))) = ident ` set ths
      \<and> dom (map_of (reverseDependencyGraph (fst st))) = ident ` set ths
      \<and> length (snd st) = length ths
      \<and> (\<forall>i<length ths. ident (snd st ! i) = ident (ths ! i)))"

definition grows :: "indexState \<Rightarrow> indexState \<Rightarrow> bool" where
  "grows st st' =
     ((\<forall>k. entriesAt (dependencyGraph (fst st)) k \<subseteq> entriesAt (dependencyGraph (fst st')) k)
      \<and> (\<forall>k. entriesAt (reverseDependencyGraph (fst st)) k \<subseteq> entriesAt (reverseDependencyGraph (fst st')) k)
      \<and> (\<forall>i<length (snd st). set (dependencies (snd st ! i)) \<subseteq> set (dependencies (snd st' ! i))
                              \<and> set (dependents (snd st ! i)) \<subseteq> set (dependents (snd st' ! i))))"

definition edgeRecorded ::
  "IndexedTheorem list \<Rightarrow> string dict \<Rightarrow> nat dict \<Rightarrow> nat \<Rightarrow> string \<Rightarrow> indexState \<Rightarrow> bool" where
  "edgeRecorded ths L T i r st =
     (\<forall>rid. map_of L r = Some rid \<and> rid \<noteq> [] \<and> rid \<noteq> ident (ths ! i) \<longrightarrow>
        rid \<in> entriesAt (dependencyGraph (fst st)) (ident (ths ! i))
        \<and> ident (ths ! i) \<in> entriesAt (reverseDependencyGraph (fst st)) rid
        \<and> rid \<in> set (dependencies (snd st ! i))
        \<and> (\<forall>j. map_of T rid = Some j \<longrightarrow> ident (ths ! i) \<in> set (dependents (snd st ! j))))"

section \<open>The set of an array\<close>

lemma setOf_Nil: "setOf [] = []"
  by (simp add: setOf_def)

lemma setOf_snoc:
  "setOf (xs @ [x]) = (if x \<in> set (setOf xs) then setOf xs else setOf xs @ [x])"
  by (simp add: setOf_def)

lemma set_setOf: "set (setOf xs) = set xs"
  by (induction xs rule: rev_induct) (auto simp: setOf_snoc setOf_Nil)

lemma distinct_setOf: "distinct (setOf xs)"
  by (induction xs rule: rev_induct) (auto simp: setOf_snoc set_setOf setOf_Nil)

lemma setOf_append:
  "setOf (xs @ ys) = setOf xs @ filter (\<lambda>y. y \<notin> set xs) (setOf ys)"
proof (induction ys rule: rev_induct)
  case Nil
  then show ?case by (simp add: setOf_Nil)
next
  case (snoc y ys)
  have "setOf (xs @ ys @ [y]) = setOf ((xs @ ys) @ [y])" by simp
  also have "\<dots> = (if y \<in> set (xs @ ys) then setOf (xs @ ys) else setOf (xs @ ys) @ [y])"
    by (simp only: setOf_snoc set_setOf)
  finally show ?case
    using snoc.IH by (auto simp: setOf_snoc set_setOf)
qed

section \<open>The reference extractor\<close>

text \<open>
  C8, as the code has it. The references returned are distinct and are the arguments
  of the two commands, but not in the order of their first occurrence in the text:
  first come the arguments of \<^verbatim>\<open>\ref\<close>, in the order of their first occurrence, and
  then the arguments of \<^verbatim>\<open>\eqref\<close> that are not among them, in the order of their
  first occurrence.
\<close>

theorem extractReferences_ref_then_eqref:
  "extractReferences content =
     setOf (commandArguments refPattern content) @
     filter (\<lambda>r. r \<notin> set (commandArguments refPattern content))
       (setOf (commandArguments eqrefPattern content))
   \<and> distinct (extractReferences content)
   \<and> set (extractReferences content) =
       set (commandArguments refPattern content) \<union> set (commandArguments eqrefPattern content)"
  by (auto simp: extractReferences_def setOf_append distinct_setOf set_setOf setOf_Nil)

text \<open>
  In \<^verbatim>\<open>\eqref{a} \ref{b}\<close> the argument \<open>a\<close> occurs first, and \<open>b\<close> is returned first.
\<close>

theorem extractReferences_order_counterexample:
  "firstSeenReferences eqrefThenRef = [''a'', ''b''] \<and> extractReferences eqrefThenRef = [''b'', ''a'']"
  by code_simp

section \<open>The symbol extractor\<close>

text \<open>
  C9, as the code has it. On \<^verbatim>\<open>$\alpha + \beta$\<close> the symbols are the two command names
  without their backslash, which the pattern of the commands captures, and the two
  commands with their backslash, which the inner pattern finds in the inline math
  span: four symbols, distinct and sorted by code unit.
\<close>

theorem extractSymbols_alpha_beta:
  "extractSymbols alphaBeta = [bs # ''alpha'', bs # ''beta'', ''alpha'', ''beta'']"
  by code_simp

theorem extractSymbols_alpha_beta_counterexample:
  "set (extractSymbols alphaBeta) \<noteq> {''alpha'', ''beta''}"
  by code_simp

section \<open>Labels declared inside a block\<close>

text \<open>
  C7 at \<^verbatim>\<open>\begin{theorem}\label{X}a\end{theorem}\<close>: the proof finder gives the block
  the label \<open>X\<close>; the indexer and the extractor give it no label, and the indexer
  names it \<open>theorem_1\<close>.
\<close>

theorem label_command_only_in_proof_finder:
  "map_option (map label) (returned (extractAllTheorems labelledInside ''/doc.tex'' getProofTheoremTypes False))
     = Some [Some ''X'']
   \<and> map_option (map label) (returned (indexerScanBlocks labelledInside ''/doc.tex'' defaultIndexerParams False))
     = Some [None]
   \<and> map_option (map ident) (returned (indexerScanBlocks labelledInside ''/doc.tex'' defaultIndexerParams False))
     = Some [''theorem_1'']
   \<and> map_option (map label) (returned (extractorScanBlocks labelledInside ''/doc.tex'' defaultExtractorParams False))
     = Some [None]"
  by code_simp


section \<open>The cycle detector on a cycle of three\<close>

lemma closedRotations_three:
  "closedRotations [a, b, c] = [[a, b, c, a], [b, c, a, b], [c, a, b, c]]"
  by (simp add: closedRotations_def)

lemma three_distinct_orders:
  assumes "distinct [A, B, C]" and "set [x, y, z] = {A, B, C}"
  shows "[x, y, z] = [A, B, C] \<or> [x, y, z] = [A, C, B] \<or> [x, y, z] = [B, C, A]
       \<or> [x, y, z] = [B, A, C] \<or> [x, y, z] = [C, A, B] \<or> [x, y, z] = [C, B, A]"
proof -
  have "card (set [x, y, z]) = length [x, y, z]" using assms by simp
  then have d: "distinct [x, y, z]"
    by (rule card_distinct)
  from assms(2) have m: "x \<in> {A, B, C}" "y \<in> {A, B, C}" "z \<in> {A, B, C}"
    by auto
  from d m show ?thesis
    by auto
qed

lemma three_cycle_orders:
  assumes "distinct [a, b, c]"
    and "set g = {(a, [b]), (b, [c]), (c, [a])}" and "length g = 3"
  shows "g = [(a, [b]), (b, [c]), (c, [a])] \<or> g = [(a, [b]), (c, [a]), (b, [c])]
       \<or> g = [(b, [c]), (c, [a]), (a, [b])] \<or> g = [(b, [c]), (a, [b]), (c, [a])]
       \<or> g = [(c, [a]), (a, [b]), (b, [c])] \<or> g = [(c, [a]), (b, [c]), (a, [b])]"
proof -
  from assms(3) obtain x y z where g: "g = [x, y, z]"
    by (auto simp: length_Suc_conv eval_nat_numeral)
  from assms(1) have "distinct [(a, [b]), (b, [c]), (c, [a])]" by simp
  moreover from assms(2) g have "set [x, y, z] = {(a, [b]), (b, [c]), (c, [a])}" by simp
  ultimately show ?thesis
    unfolding g by (rule three_distinct_orders)
qed

lemmas dfs_eval =
  detectCyclicDependencies_def depthBound_def dictGet_def Let_def

lemma three_cycle_from_first:
  assumes "a \<noteq> b" "b \<noteq> c" "a \<noteq> c"
  shows "detectCyclicDependencies [(a, [b]), (b, [c]), (c, [a])] = Returned [[a, b, c, a]]"
  using assms by (simp add: dfs_eval eval_nat_numeral)

lemma three_cycle_from_first_swapped:
  assumes "a \<noteq> b" "b \<noteq> c" "a \<noteq> c"
  shows "detectCyclicDependencies [(a, [b]), (c, [a]), (b, [c])] = Returned [[a, b, c, a]]"
  using assms by (simp add: dfs_eval eval_nat_numeral)

text \<open>
  C3. On a graph whose keys are three distinct identifiers \<open>a\<close>, \<open>b\<close>, \<open>c\<close>, in any
  order of the keys, with exactly the edges \<open>a \<rightarrow> b\<close>, \<open>b \<rightarrow> c\<close>, \<open>c \<rightarrow> a\<close>, the cycle
  detector returns (the bound on the depth is not reached) one cycle, a rotation of
  \<open>[a, b, c]\<close> with its first identifier repeated at the end; it starts at the first key
  of the graph.
\<close>

theorem detectCycles_three_cycle:
  assumes "distinct [a, b, c]"
    and "set g = {(a, [b]), (b, [c]), (c, [a])}" and "length g = 3"
  shows "\<exists>cyc. detectCyclicDependencies g = Returned [cyc]
           \<and> cyc \<in> set (closedRotations [a, b, c]) \<and> hd cyc = fst (hd g)"
proof -
  from assms(1) have d: "a \<noteq> b" "b \<noteq> c" "a \<noteq> c" "b \<noteq> a" "c \<noteq> b" "c \<noteq> a"
    by auto
  from three_cycle_orders [OF assms]
  consider "g = [(a, [b]), (b, [c]), (c, [a])]" | "g = [(a, [b]), (c, [a]), (b, [c])]"
    | "g = [(b, [c]), (c, [a]), (a, [b])]" | "g = [(b, [c]), (a, [b]), (c, [a])]"
    | "g = [(c, [a]), (a, [b]), (b, [c])]" | "g = [(c, [a]), (b, [c]), (a, [b])]"
    by blast
  then show ?thesis
  proof cases
    case 1
    have "detectCyclicDependencies g = Returned [[a, b, c, a]]"
      unfolding 1 by (rule three_cycle_from_first [OF d(1,2,3)])
    moreover have "hd [a, b, c, a] = fst (hd g)" unfolding 1 by simp
    ultimately show ?thesis unfolding closedRotations_three by (intro exI [of _ "[a, b, c, a]"]) simp
  next
    case 2
    have "detectCyclicDependencies g = Returned [[a, b, c, a]]"
      unfolding 2 by (rule three_cycle_from_first_swapped [OF d(1,2,3)])
    moreover have "hd [a, b, c, a] = fst (hd g)" unfolding 2 by simp
    ultimately show ?thesis unfolding closedRotations_three by (intro exI [of _ "[a, b, c, a]"]) simp
  next
    case 3
    have "detectCyclicDependencies g = Returned [[b, c, a, b]]"
      unfolding 3 by (rule three_cycle_from_first [OF d(2,6,4)])
    moreover have "hd [b, c, a, b] = fst (hd g)" unfolding 3 by simp
    ultimately show ?thesis unfolding closedRotations_three by (intro exI [of _ "[b, c, a, b]"]) simp
  next
    case 4
    have "detectCyclicDependencies g = Returned [[b, c, a, b]]"
      unfolding 4 by (rule three_cycle_from_first_swapped [OF d(2,6,4)])
    moreover have "hd [b, c, a, b] = fst (hd g)" unfolding 4 by simp
    ultimately show ?thesis unfolding closedRotations_three by (intro exI [of _ "[b, c, a, b]"]) simp
  next
    case 5
    have "detectCyclicDependencies g = Returned [[c, a, b, c]]"
      unfolding 5 by (rule three_cycle_from_first [OF d(6,1,5)])
    moreover have "hd [c, a, b, c] = fst (hd g)" unfolding 5 by simp
    ultimately show ?thesis unfolding closedRotations_three by (intro exI [of _ "[c, a, b, c]"]) simp
  next
    case 6
    have "detectCyclicDependencies g = Returned [[c, a, b, c]]"
      unfolding 6 by (rule three_cycle_from_first_swapped [OF d(6,1,5)])
    moreover have "hd [c, a, b, c] = fst (hd g)" unfolding 6 by simp
    ultimately show ?thesis unfolding closedRotations_three by (intro exI [of _ "[c, a, b, c]"]) simp
  qed
qed

theorem detectCycles_three_cycle_witness:
  "\<exists>cyc. detectCyclicDependencies [(''a'', [''b'']), (''b'', [''c'']), (''c'', [''a''])] = Returned [cyc]
     \<and> cyc \<in> set (closedRotations [''a'', ''b'', ''c''])
     \<and> hd cyc = ''a''"
  using detectCycles_three_cycle [of "''a''" "''b''" "''c''" "[(''a'', [''b'']), (''b'', [''c'']), (''c'', [''a''])]"]
  by simp

section \<open>The depth bound of the cycle detector\<close>

text \<open>
  The depth given to the search by \<open>detectCyclicDependencies\<close> is never used up: the
  names on the recursion stack are distinct names of the graph, and a call that would
  go deeper finds its node on the stack.
\<close>

lemma depthBound_card: "depthBound g = Suc (card (graphNames g))"
  by (simp add: depthBound_def graphNames_def card_set del: set_append set_concat)

lemma dictGet_Own_names:
  assumes "dictGet g node = Own deps"
  shows "set deps \<subseteq> graphNames g"
proof -
  from assms have "map_of g node = Some deps"
    by (auto simp: dictGet_def split: option.splits if_splits)
  then have "(node, deps) \<in> set g" by (rule map_of_SomeD)
  then show ?thesis by (force simp: graphNames_def)
qed

lemma dfs_within_bound:
  "Suc (card (graphNames g - set path)) \<le> n \<Longrightarrow> node \<in> graphNames g \<Longrightarrow> distinct path \<Longrightarrow>
     set (recursionStack st) = set path \<Longrightarrow>
     dfs n g node path st \<noteq> Unmodelled \<and>
     (\<forall>st'. dfs n g node path st = Returned st' \<longrightarrow> recursionStack st' = recursionStack st)"
  and dfsEach_within_bound:
  "Suc (card (graphNames g - set path)) \<le> n \<Longrightarrow> set deps \<subseteq> graphNames g \<Longrightarrow> distinct path \<Longrightarrow>
     set (recursionStack st) = set path \<Longrightarrow>
     dfsEach n g deps path st \<noteq> Unmodelled \<and>
     (\<forall>st'. dfsEach n g deps path st = Returned st' \<longrightarrow> recursionStack st' = recursionStack st)"
proof (induction n g node path st and n g deps path st rule: dfs_dfsEach.induct)
  case (1 g node path st)
  then show ?case by simp
next
  case (2 n g node path st)
  show ?case
  proof (cases "node \<in> set (recursionStack st) \<or> node \<in> set (visited st)")
    case True
    then show ?thesis by auto
  next
    case False
    let ?st1 = "st\<lparr>visited := visited st @ [node], recursionStack := recursionStack st @ [node]\<rparr>"
    from False "2.prems"(4) have notin: "node \<notin> set path" by simp
    have fin: "finite (graphNames g)" by (simp add: graphNames_def)
    from notin "2.prems"(2) have "node \<in> graphNames g - set path" by simp
    with fin have "card (graphNames g - set (path @ [node])) < card (graphNames g - set path)"
      by (metis Diff_insert card_Diff1_less finite_Diff list.simps(15) rotate1.simps(2) set_rotate1)
    with "2.prems"(1) have bound: "Suc (card (graphNames g - set (path @ [node]))) \<le> n" by simp
    from notin "2.prems"(3) have dist: "distinct (path @ [node])" by simp
    from "2.prems"(4) have stack: "set (recursionStack ?st1) = set (path @ [node])" by simp
    show ?thesis
    proof (cases "dictGet g node")
      case (Own deps)
      from dictGet_Own_names [OF Own] have sub: "set deps \<subseteq> graphNames g" .
      have f1: "\<not> node \<in> set (recursionStack st)" and f2: "\<not> node \<in> set (visited st)"
        using False by simp_all
      from "2.IH" [OF f1 f2 refl Own bound sub dist stack]
      have ih: "dfsEach n g deps (path @ [node]) ?st1 \<noteq> Unmodelled"
        "\<And>st'. dfsEach n g deps (path @ [node]) ?st1 = Returned st' \<Longrightarrow>
           recursionStack st' = recursionStack st @ [node]"
        by simp_all
      show ?thesis
      proof (cases "dfsEach n g deps (path @ [node]) ?st1")
        case (Returned st2)
        from ih(2) [OF Returned] False have "removeAll node (recursionStack st2) = recursionStack st"
          by simp
        with False Own Returned show ?thesis by (simp add: Let_def)
      next
        case (Threw e)
        with False Own show ?thesis by (simp add: Let_def)
      next
        case Unmodelled
        with ih(1) show ?thesis by simp
      qed
    next
      case Inherited
      with False show ?thesis by (simp add: Let_def)
    next
      case Undefined
      with False show ?thesis by (simp add: Let_def)
    qed
  qed
next
  case (3 n g path st)
  then show ?case by simp
next
  case (4 n g dep deps path st)
  from "4.prems" have dep: "dep \<in> graphNames g" and deps: "set deps \<subseteq> graphNames g" by simp_all
  from "4.IH"(1) [OF "4.prems"(1) dep "4.prems"(3,4)]
  have h: "dfs n g dep path st \<noteq> Unmodelled"
    "\<And>st'. dfs n g dep path st = Returned st' \<Longrightarrow> recursionStack st' = recursionStack st"
    by simp_all
  show ?case
  proof (cases "dfs n g dep path st")
    case (Returned st1)
    from h(2) [OF Returned] "4.prems"(4) have s: "set (recursionStack st1) = set path" by simp
    from "4.IH"(2) [OF "4.prems"(1) deps "4.prems"(3) s] h(2) [OF Returned] Returned
    show ?thesis by simp
  next
    case (Threw e)
    then show ?thesis by simp
  next
    case Unmodelled
    with h(1) show ?thesis by simp
  qed
qed


lemma detect_loop_within_bound:
  "set keys \<subseteq> graphNames g \<Longrightarrow> recursionStack st = [] \<Longrightarrow>
   forEachO keys (\<lambda>node st. if node \<notin> set (visited st) then dfs (depthBound g) g node [] st
                              else Returned st) st \<noteq> Unmodelled"
proof (induction keys arbitrary: st)
  case Nil
  then show ?case by simp
next
  case (Cons node keys)
  show ?case
  proof (cases "node \<in> set (visited st)")
    case True
    with Cons show ?thesis by simp
  next
    case False
    have b: "Suc (card (graphNames g - set [])) \<le> depthBound g"
      by (simp add: depthBound_card)
    from Cons.prems have n: "node \<in> graphNames g" by simp
    from dfs_within_bound [OF b n, of st] Cons.prems(2)
    have h: "dfs (depthBound g) g node [] st \<noteq> Unmodelled"
      "\<And>st'. dfs (depthBound g) g node [] st = Returned st' \<Longrightarrow> recursionStack st' = []"
      by simp_all
    show ?thesis
    proof (cases "dfs (depthBound g) g node [] st")
      case (Returned st1)
      from Cons.IH [of st1] Cons.prems(1) h(2) [OF Returned] Returned False show ?thesis by simp
    next
      case (Threw e)
      with False show ?thesis by simp
    next
      case Unmodelled
      with h(1) show ?thesis by simp
    qed
  qed
qed

lemma detectCyclicDependencies_bound_not_reached:
  "detectCyclicDependencies g \<noteq> Unmodelled"
proof -
  have "set (map fst g) \<subseteq> graphNames g" by (auto simp: graphNames_def)
  from detect_loop_within_bound [OF this, of "\<lparr>cycles = [], visited = [], recursionStack = []\<rparr>"]
  show ?thesis
    by (cases "forEachO (map fst g)
          (\<lambda>node st. if node \<notin> set (visited st) then dfs (depthBound g) g node [] st else Returned st)
          \<lparr>cycles = [], visited = [], recursionStack = []\<rparr>")
       (simp_all add: detectCyclicDependencies_def)
qed

section \<open>The matcher\<close>

lemma startsWith_refl: "startsWith q q"
  by (induction q) simp_all

lemma includesStr_refl: "includesStr q q"
  by (cases q) (simp_all add: startsWith_refl)

lemma wordOverlapScore_nonneg: "0 \<le> wordOverlapScore query t"
  by (simp add: wordOverlapScore_def Let_def)

lemmas rule_defs = nameEquals_def labelContains_def nameContains_def kindContains_def

lemma candidateScore_rules: "candidateScore False query t = ruleScore query t"
  by (cases "name t"; cases "label t")
     (auto simp: candidateScore_def ruleScore_def rule_defs Let_def max_def)

lemma candidateScore_fuzzy:
  "candidateScore True query t = max (ruleScore query t) (wordOverlapScore query t)"
  using wordOverlapScore_nonneg [of query t]
  by (cases "name t"; cases "label t")
     (auto simp: candidateScore_def ruleScore_def wordOverlapScore_def rule_defs Let_def max_def)

lemma exactLabel_score:
  assumes "exactLabel query t"
  shows "80 \<le> candidateScore fuzzyMatch query t"
proof -
  from assms have "80 \<le> ruleScore query t"
    by (auto simp: exactLabel_def ruleScore_def rule_defs includesStr_refl split: option.splits)
  then show ?thesis
    by (cases fuzzyMatch) (simp_all add: candidateScore_rules candidateScore_fuzzy)
qed

lemma bestMatchLoop_Inl:
  "bestMatchLoop fz q ths best = Inl t \<Longrightarrow> t \<in> set ths \<and> exactLabel q t"
  by (induction ths arbitrary: best) (auto split: if_splits)

lemma bestMatchLoop_Inr:
  "bestMatchLoop fz q ths best = Inr best' \<Longrightarrow>
     snd best \<le> snd best' \<and>
     (best' = best \<or> (\<exists>t \<in> set ths. fst best' = Some t \<and> snd best' = candidateScore fz q t))"
proof (induction ths arbitrary: best)
  case Nil
  then show ?case by simp
next
  case (Cons t ths)
  show ?case
  proof (cases "snd best < candidateScore fz q t")
    case True
    with Cons.prems have "bestMatchLoop fz q ths (Some t, candidateScore fz q t) = Inr best'"
      by (simp split: if_splits)
    from Cons.IH [OF this] True show ?thesis by auto
  next
    case False
    with Cons.prems have "bestMatchLoop fz q ths best = Inr best'"
      by (simp split: if_splits)
    from Cons.IH [OF this] show ?thesis by auto
  qed
qed


lemma findBestMatch_Some:
  assumes "findBestMatch ths identifier fuzzyMatch = Some t"
  shows "t \<in> set ths \<and> 30 < candidateScore fuzzyMatch (trim (toLowerCase identifier)) t"
proof (cases "bestMatchLoop fuzzyMatch (trim (toLowerCase identifier)) ths (None, 0)")
  case (Inl t')
  with assms have "t' = t" by (simp add: findBestMatch_def)
  with bestMatchLoop_Inl [OF Inl] exactLabel_score [of "trim (toLowerCase identifier)" t fuzzyMatch]
  show ?thesis by auto
next
  case (Inr best')
  with assms have b: "30 < snd best'" "fst best' = Some t"
    by (auto simp: findBestMatch_def split: if_splits)
  from bestMatchLoop_Inr [OF Inr] b show ?thesis by auto
qed


lemma no_match_Riemann: "findBestMatch sevenCandidates ''Riemann'' True = None"
  by code_simp

lemma match_the_sum: "findBestMatch sevenCandidates ''the sum'' True = Some (sevenCandidates ! 0)"
  by code_simp


text \<open>
  C4. The search returns a candidate only if the score the rules give this candidate
  is above 30 (a candidate returned at once for its label has a score of 80 or more);
  when it returns none, the result of the proof finder is the not-found record, a
  value and not an exception, and its suggestions are the first five candidates of
  the list, in the order of the list.
\<close>

theorem findBestMatch_threshold:
  "(\<forall>t. findBestMatch ths identifier fuzzyMatch = Some t \<longrightarrow>
        t \<in> set ths \<and> 30 < candidateScore fuzzyMatch (trim (toLowerCase identifier)) t)
   \<and> (findBestMatch ths (theorem_identifier params) (notFalse (fuzzy_match params)) = None \<longrightarrow>
        result (resolveProof content params ths) = None
        \<and> found (resolveProof content params ths) = False
        \<and> potentialMatches (resolveProof content params ths) = take 5 ths)
   \<and> length (potentialMatches (resolveProof content params ths)) \<le> 5"
  by (auto simp: findBestMatch_Some resolveProof_def Let_def split: option.splits)

theorem findBestMatch_threshold_witness:
  "findBestMatch sevenCandidates ''the sum'' True = Some (sevenCandidates ! 0)
   \<and> 30 < candidateScore True (trim (toLowerCase ''the sum'')) (sevenCandidates ! 0)
   \<and> findBestMatch sevenCandidates ''Riemann'' True = None
   \<and> length sevenCandidates = 7
   \<and> potentialMatches (resolveProof [] (getProofParams ''Riemann'' None) sevenCandidates)
       = take 5 sevenCandidates"
  using findBestMatch_threshold [of sevenCandidates "''the sum''" True "getProofParams ''Riemann'' None" "[]"]
    match_the_sum no_match_Riemann
  by (simp add: getProofParams_def notFalse_def sevenCandidates_def)











section \<open>The pattern of kinds that are plain words\<close>

lemma quantified_none:
  "cs = [] \<or> (hd cs \<noteq> CHR ''*'' \<and> hd cs \<noteq> CHR ''+'' \<and> hd cs \<noteq> CHR ''?'') \<Longrightarrow>
   quantified atom cs = (atom, cs)"
  by (cases cs) (auto simp: quantified_def Let_def)

lemma plainKind_Cons:
  "plainKind (c # k) =
     (c \<noteq> bs \<and> c \<noteq> CHR ''^'' \<and> c \<noteq> CHR ''$'' \<and> c \<noteq> CHR ''.'' \<and> c \<noteq> CHR ''|''
      \<and> c \<noteq> CHR ''?'' \<and> c \<noteq> CHR ''*'' \<and> c \<noteq> CHR ''+'' \<and> c \<noteq> CHR ''('' \<and> c \<noteq> CHR '')''
      \<and> c \<noteq> CHR ''['' \<and> c \<noteq> CHR '']'' \<and> c \<noteq> CHR ''{'' \<and> c \<noteq> CHR ''}'' \<and> plainKind k)"
  by (auto simp: plainKind_def)

text \<open>A plain word is read as its characters, one term each.\<close>

lemma parse_plain_word:
  assumes "plainKind k"
    and "rest = [] \<or> (hd rest \<noteq> CHR ''*'' \<and> hd rest \<noteq> CHR ''+'' \<and> hd rest \<noteq> CHR ''?'')"
  shows "parsePattern (k @ rest) st = parsePattern rest (st\<lparr>psTerms := psTerms st @ map Chr k\<rparr>)"
  using assms(1)
proof (induction k arbitrary: st)
  case Nil
  then show ?case by simp
next
  case (Cons c k)
  from Cons.prems have c: "c \<noteq> bs" "c \<noteq> CHR ''^''" "c \<noteq> CHR ''$''" "c \<noteq> CHR ''.''" "c \<noteq> CHR ''|''"
    "c \<noteq> CHR ''?''" "c \<noteq> CHR ''*''" "c \<noteq> CHR ''+''" "c \<noteq> CHR ''(''" "c \<noteq> CHR '')''"
    "c \<noteq> CHR ''[''" "c \<noteq> CHR ''{''" and k: "plainKind k"
    by (simp_all add: plainKind_Cons)
  have "k @ rest = [] \<or> (hd (k @ rest) \<noteq> CHR ''*'' \<and> hd (k @ rest) \<noteq> CHR ''+'' \<and> hd (k @ rest) \<noteq> CHR ''?'')"
    using k assms(2) by (cases k) (simp_all add: plainKind_Cons)
  then have q: "quantified (Chr c) (k @ rest) = (Chr c, k @ rest)"
    by (rule quantified_none)
  have "parsePattern ((c # k) @ rest) st = parsePattern (k @ rest) (addTerm (Chr c) st)"
    using c by (simp add: parsePattern.simps(2) [of c "k @ rest" st] q)
  also have "\<dots> = parsePattern rest ((addTerm (Chr c) st)\<lparr>psTerms := psTerms (addTerm (Chr c) st) @ map Chr k\<rparr>)"
    by (rule Cons.IH [OF k])
  finally show ?case by (simp add: addTerm_def)
qed

text \<open>Plain words joined by bars are read as the alternatives of the group they are in.\<close>

lemma parse_plain_kinds:
  assumes "list_all plainKind (k # ks)" and "psTerms st = []"
  shows "parsePattern (join (k # ks) ''|'' @ CHR '')'' # rest) st
         = parsePattern (CHR '')'' # rest)
             (st\<lparr>psAlts := psAlts st @ map (\<lambda>k. seqs (map Chr k)) (butlast (k # ks)),
                 psTerms := map Chr (last (k # ks))\<rparr>)"
  using assms
proof (induction ks arbitrary: k st)
  case Nil
  then have k: "plainKind k" by simp
  from parse_plain_word [OF k, of "CHR '')'' # rest" st] Nil.prems(2) show ?case by simp
next
  case (Cons k' ks)
  from Cons.prems have k: "plainKind k" and r: "list_all plainKind (k' # ks)" by simp_all
  let ?X = "join (k' # ks) ''|'' @ CHR '')'' # rest"
  let ?st1 = "st\<lparr>psTerms := psTerms st @ map Chr k\<rparr>"
  let ?st2 = "?st1\<lparr>psAlts := psAlts ?st1 @ [seqs (psTerms ?st1)], psTerms := []\<rparr>"
  have "parsePattern (join (k # k' # ks) ''|'' @ CHR '')'' # rest) st
        = parsePattern (k @ CHR ''|'' # ?X) st" by simp
  also have "\<dots> = parsePattern (CHR ''|'' # ?X) ?st1"
    by (rule parse_plain_word [OF k]) simp
  also have "\<dots> = parsePattern ?X ?st2"
    by (simp add: parsePattern.simps(2) [of "CHR ''|''" ?X ?st1])
  also have "\<dots> = parsePattern (CHR '')'' # rest)
      (?st2\<lparr>psAlts := psAlts ?st2 @ map (\<lambda>k. seqs (map Chr k)) (butlast (k' # ks)),
            psTerms := map Chr (last (k' # ks))\<rparr>)"
    by (rule Cons.IH [OF r]) simp
  finally show ?case using Cons.prems(2) by simp
qed

lemma kinds_text_head:
  assumes "list_all plainKind kinds"
  shows "\<exists>c X. join kinds ''|'' @ CHR '')'' # rest = c # X \<and> c \<noteq> CHR ''?''"
proof (cases kinds)
  case Nil
  then show ?thesis by simp
next
  case (Cons k ks)
  show ?thesis
  proof (cases k)
    case Nil
    with Cons show ?thesis by (cases ks) simp_all
  next
    case c: (Cons c k')
    with Cons assms have "c \<noteq> CHR ''?''" by (simp add: plainKind_Cons)
    with Cons c show ?thesis by (cases ks) simp_all
  qed
qed

lemmas parse_eval = parsePattern.simps RegExp_def quantified_def Let_def openGroup_def addTerm_def
  disjunction_def isAlnum_def inRange_def isLineTerminator_def bs_def

lemma parse_suffix:
  "parsePattern ('')'' @ [bs] @ ''}(?:'' @ [bs] @ ''[(.*?)'' @ [bs] @ ''])?(?:'' @ [bs] @ ''{(.*?)'' @ [bs] @ ''})?'')
     \<lparr>psAlts = A, psTerms = T, psOpen = [(Capture 1, [], P)], psNext = 2\<rparr>
   = Returned (seqs (P @ [Group 1 (alts (A @ [seqs T])), Chr CHR ''}'',
                 Opt (seqs [Chr CHR ''['', Group 2 (LazyStar Dot), Chr CHR '']'']),
                 Opt (seqs [Chr CHR ''{'', Group 3 (LazyStar Dot), Chr CHR ''}''])]))"
  by (simp add: parse_eval)

lemma parse_prefix:
  assumes "\<not> startsWith X ''?:''" and "\<not> startsWith X ''?''"
  shows "parsePattern ([bs, bs] @ ''begin'' @ [bs] @ ''{('' @ X)
           \<lparr>psAlts = [], psTerms = [], psOpen = [], psNext = 1\<rparr>
         = parsePattern X
             \<lparr>psAlts = [], psTerms = [], psOpen = [(Capture 1, [], map Chr (bs # ''begin{''))],
              psNext = 2\<rparr>"
  using assms by (simp add: parse_eval numeral_2_eq_2)

text \<open>
  For kinds that are plain words the pattern that the source makes is the pattern of
  the delimiters \<^verbatim>\<open>\begin{k}\<close>.
\<close>

lemma beginPattern_plain:
  assumes "list_all plainKind kinds"
  shows "beginPattern kinds = Returned (lre (literalBeginPattern kinds))"
proof -
  let ?suffix = "[bs] @ ''}(?:'' @ [bs] @ ''[(.*?)'' @ [bs] @ ''])?(?:'' @ [bs] @ ''{(.*?)'' @ [bs] @ ''})?''"
  let ?X = "join kinds ''|'' @ CHR '')'' # ?suffix"
  let ?st = "\<lparr>psAlts = [], psTerms = [], psOpen = [(Capture 1, [], map Chr (bs # ''begin{''))],
              psNext = 2\<rparr>"
  from kinds_text_head [OF assms, of ?suffix] obtain c X' where "?X = c # X'" "c \<noteq> CHR ''?''"
    by blast
  then have h: "\<not> startsWith ?X ''?:''" "\<not> startsWith ?X ''?''"
    by simp_all
  have "beginPattern kinds = parsePattern ([bs, bs] @ ''begin'' @ [bs] @ ''{('' @ ?X)
           \<lparr>psAlts = [], psTerms = [], psOpen = [], psNext = 1\<rparr>"
    by (simp add: beginPattern_def beginSource_def RegExp_def)
  also have "\<dots> = parsePattern ?X ?st"
    by (rule parse_prefix [OF h])
  also have "\<dots> = Returned (seqs (map Chr (bs # ''begin{'') @
                [Group 1 (alts (map (\<lambda>k. seqs (map Chr k)) kinds)), Chr CHR ''}'',
                 Opt (seqs [Chr CHR ''['', Group 2 (LazyStar Dot), Chr CHR '']'']),
                 Opt (seqs [Chr CHR ''{'', Group 3 (LazyStar Dot), Chr CHR ''}''])]))"
  proof (cases kinds)
    case Nil
    with parse_suffix [of "[]" "[]" "map Chr (bs # ''begin{'')"] show ?thesis by simp
  next
    case (Cons k ks)
    have m: "map (\<lambda>k. seqs (map Chr k)) (butlast (k # ks)) @ [seqs (map Chr (last (k # ks)))]
             = map (\<lambda>k. seqs (map Chr k)) (k # ks)"
      by (metis (no_types, lifting) append_butlast_last_id list.distinct(1) list.simps(8,9) map_append)
    from assms Cons have p: "list_all plainKind (k # ks)" by simp
    have "parsePattern ?X ?st = parsePattern (CHR '')'' # ?suffix)
        (?st\<lparr>psAlts := psAlts ?st @ map (\<lambda>k. seqs (map Chr k)) (butlast (k # ks)),
             psTerms := map Chr (last (k # ks))\<rparr>)"
      unfolding Cons by (rule parse_plain_kinds [OF p]) simp
    also have "\<dots> = Returned (seqs (map Chr (bs # ''begin{'') @
                [Group 1 (alts (map (\<lambda>k. seqs (map Chr k)) (butlast (k # ks))
                                  @ [seqs (map Chr (last (k # ks)))])), Chr CHR ''}'',
                 Opt (seqs [Chr CHR ''['', Group 2 (LazyStar Dot), Chr CHR '']'']),
                 Opt (seqs [Chr CHR ''{'', Group 3 (LazyStar Dot), Chr CHR ''}''])]))"
      using parse_suffix [of "map (\<lambda>k. seqs (map Chr k)) (butlast (k # ks))"
          "map Chr (last (k # ks))" "map Chr (bs # ''begin{'')"]
      by simp
    finally show ?thesis unfolding m Cons .
  qed
  also have "\<dots> = Returned (lre (literalBeginPattern kinds))"
    by (simp add: lre_def literalBeginPattern_def)
  finally show ?thesis .
qed

section \<open>The first pass on the pattern of plain kinds\<close>

text \<open>A match leaves the captures of the groups that are not in the pattern as they were.\<close>

lemma ms_group_kept:
  "st' \<in> set (ms f s r st) \<Longrightarrow> n \<notin> set (groupsOf r) \<Longrightarrow> snd st' n = snd st n"
proof (induction f s r st arbitrary: st' rule: ms.induct)
  case (4 f s a b p cs)
  then obtain st1 where a: "st1 \<in> set (ms f s a (p, cs))" and b: "st' \<in> set (ms f s b st1)"
    by auto
  from "4.prems"(2) have na: "n \<notin> set (groupsOf a)" and nb: "n \<notin> set (groupsOf b)" by simp_all
  from "4.IH"(1) [OF a na] "4.IH"(2) [OF a b nb] show ?case by simp
next
  case (5 f s a b p cs)
  from "5.prems"(2) have na: "n \<notin> set (groupsOf a)" and nb: "n \<notin> set (groupsOf b)" by simp_all
  from "5.prems"(1) have "st' \<in> set (ms f s a (p, cs)) \<or> st' \<in> set (ms f s b (p, cs))" by simp
  then show ?case
  proof
    assume "st' \<in> set (ms f s a (p, cs))"
    from "5.IH"(1) [OF this na] show ?thesis .
  next
    assume "st' \<in> set (ms f s b (p, cs))"
    from "5.IH"(2) [OF this nb] show ?thesis .
  qed
next
  case (6 f s r p cs)
  from "6.prems"(2) have n: "n \<notin> set (groupsOf r)" by simp
  from "6.prems"(1) consider "st' = (p, cs)"
    | st1 where "st1 \<in> set (ms f s r (p, clearCaps (groupsOf r) cs))" "p < fst st1" "fst st1 \<le> length s"
        "st' \<in> set (ms f s (Star r) st1)"
    by (auto split: if_splits)
  then show ?case
  proof cases
    case 1
    then show ?thesis by simp
  next
    case 2
    from "6.IH"(1) [OF 2(1) n] n have "snd st1 n = cs n" by (simp add: clearCaps_def)
    moreover from "6.IH"(2) [OF 2(1) _ 2(4)] 2(2,3) "6.prems"(2) have "snd st' n = snd st1 n" by simp
    ultimately show ?thesis by simp
  qed
next
  case (7 f s r p cs)
  from "7.prems"(2) have n: "n \<notin> set (groupsOf r)" by simp
  from "7.prems"(1) consider "st' = (p, cs)"
    | st1 where "st1 \<in> set (ms f s r (p, clearCaps (groupsOf r) cs))" "p < fst st1" "fst st1 \<le> length s"
        "st' \<in> set (ms f s (LazyStar r) st1)"
    by (auto split: if_splits)
  then show ?case
  proof cases
    case 1
    then show ?thesis by simp
  next
    case 2
    from "7.IH"(1) [OF 2(1) n] n have "snd st1 n = cs n" by (simp add: clearCaps_def)
    moreover from "7.IH"(2) [OF 2(1) _ 2(4)] 2(2,3) "7.prems"(2) have "snd st' n = snd st1 n" by simp
    ultimately show ?thesis by simp
  qed
next
  case (8 f s r p cs)
  from "8.prems"(2) have n: "n \<notin> set (groupsOf r)" by simp
  from "8.prems"(1) consider "st' = (p, cs)"
    | "st' \<in> set (ms f s r (p, clearCaps (groupsOf r) cs))"
    by auto
  then show ?case
  proof cases
    case 1
    then show ?thesis by simp
  next
    case 2
    from "8.IH" [OF 2 n] n show ?thesis by (simp add: clearCaps_def)
  qed
next
  case (9 f s r p cs)
  from "9.prems"(2) have n: "n \<notin> set (groupsOf r)" by simp
  from "9.prems"(1) consider "st' = (p, cs)"
    | "st' \<in> set (ms f s r (p, clearCaps (groupsOf r) cs))"
    by auto
  then show ?case
  proof cases
    case 1
    then show ?thesis by simp
  next
    case 2
    from "9.IH" [OF 2 n] n show ?thesis by (simp add: clearCaps_def)
  qed
next
  case (10 f s k r p cs)
  from "10.prems"(2) have n: "n \<notin> set (groupsOf r)" and k: "n \<noteq> k" by simp_all
  from "10.prems"(1) obtain st1 where a: "st1 \<in> set (ms f s r (p, cs))"
    and b: "st' = (fst st1, (snd st1)(k := Some (substring s p (fst st1))))"
    by auto
  from "10.IH" [OF a n] b k show ?case by simp
qed (auto split: if_splits)

lemma ms_seqs_Cons:
  "ms f s (seqs (r # rs)) st = concat (map (ms f s (seqs rs)) (ms f s r st))"
proof (cases rs)
  case Nil
  have "concat (map (ms f s Eps) xs) = xs" for xs
    by (induction xs) auto
  with Nil show ?thesis by simp
next
  case (Cons a list)
  then show ?thesis by (cases st) simp
qed

text \<open>A match of a sequence that has the first group among its terms defines this group.\<close>

lemma seqs_defines_group:
  assumes "1 \<notin> set (groupsOf (seqs ys))"
  shows "st' \<in> set (ms f s (seqs (xs @ Group 1 X # ys)) st) \<Longrightarrow> snd st' 1 \<noteq> None"
proof (induction xs arbitrary: st)
  case Nil
  then obtain y where y: "y \<in> set (ms f s (Group 1 X) st)" and st': "st' \<in> set (ms f s (seqs ys) y)"
    by (auto simp: ms_seqs_Cons)
  from y have "snd y 1 \<noteq> None" by (cases st) auto
  with ms_group_kept [OF st' assms] show ?case by simp
next
  case (Cons x xs)
  then obtain y where "st' \<in> set (ms f s (seqs (xs @ Group 1 X # ys)) y)"
    by (auto simp: ms_seqs_Cons)
  then show ?case by (rule Cons.IH)
qed

lemma execFrom_Some:
  "execFrom f s r i = Some m \<Longrightarrow>
   \<exists>st. st \<in> set (ms f s r (mindex m, \<lambda>n. None)) \<and> mend m = fst st \<and> mcaps m = snd st"
proof (induction f s r i rule: execFrom.induct)
  case (1 f s r i)
  show ?case
  proof (cases "length s < i")
    case True
    with "1.prems" show ?thesis by (simp add: execFrom.simps)
  next
    case False
    show ?thesis
    proof (cases "ms f s r (i, \<lambda>n. None)")
      case Nil
      with False "1.prems" have "execFrom f s r (Suc i) = Some m"
        by (simp add: execFrom.simps [of f s r i])
      from "1.IH" [OF False Nil this] show ?thesis .
    next
      case (Cons st rest)
      with False "1.prems" have "m = \<lparr>mindex = i, mend = fst st, mcaps = snd st\<rparr>"
        by (simp add: execFrom.simps [of f s r i])
      with Cons show ?thesis by auto
    qed
  qed
qed

lemma literal_defines_group:
  assumes "execFrom f content (lre (literalBeginPattern kinds)) i = Some m"
  shows "mgroup m 1 \<noteq> None"
proof -
  let ?X = "alts (map (\<lambda>k. seqs (map Chr k)) kinds)"
  let ?ys = "[Chr CHR ''}'', Opt (seqs [Chr CHR ''['', Group 2 (LazyStar Dot), Chr CHR '']'']),
              Opt (seqs [Chr CHR ''{'', Group 3 (LazyStar Dot), Chr CHR ''}''])]"
  have e: "lre (literalBeginPattern kinds) = seqs (map Chr (bs # ''begin{'') @ Group 1 ?X # ?ys)"
    by (simp add: lre_def literalBeginPattern_def)
  have g: "1 \<notin> set (groupsOf (seqs ?ys))" by simp
  from execFrom_Some [OF assms] obtain st
    where st: "st \<in> set (ms f content (lre (literalBeginPattern kinds)) (mindex m, \<lambda>n. None))"
      and c: "mcaps m = snd st" by blast
  from st [unfolded e] have "snd st 1 \<noteq> None"
    by (rule seqs_defines_group [OF g])
  with c show ?thesis by (simp add: mgroup_def)
qed

text \<open>
  On a pattern that starts with a character and defines its first group at every match,
  the first pass throws at the first match when the signal is aborted and otherwise
  returns the entries of all matches.
\<close>

lemma firstPass_lre:
  assumes g: "\<And>i m. execFrom flagI content (lre pat) i = Some m \<Longrightarrow> mgroup m 1 \<noteq> None"
  shows "firstPass message content (lre pat) aborted i =
     (if aborted \<and> execAll flagI content pat i \<noteq> [] then Threw (Error message)
      else Returned (map (stackEntryOf content) (execAll flagI content pat i)))"
  using g
proof (induction message content "lre pat" aborted i rule: firstPass.induct)
  case (1 message content aborted i)
  note u = firstPass.simps [of message content "lre pat" aborted i] execAll.simps [of flagI content pat i]
  show ?case
  proof (cases "execFrom flagI content (lre pat) i")
    case None
    then show ?thesis unfolding u by simp
  next
    case (Some m)
    from execFrom_lre_nonempty [OF Some] have ne: "\<not> mend m \<le> mindex m" by simp
    from "1.prems" [OF Some] have gr: "mgroup m 1 \<noteq> None" .
    show ?thesis
    proof (cases aborted)
      case True
      with Some show ?thesis unfolding u by simp
    next
      case False
      from "1.hyps" [OF Some False gr ne "1.prems"] False
      have "firstPass message content (lre pat) aborted (mend m)
            = Returned (map (stackEntryOf content) (execAll flagI content pat (mend m)))"
        by simp
      with Some False gr ne show ?thesis unfolding u by simp
    qed
  qed
qed

text \<open>The scan for kinds that are plain words.\<close>

lemma scanBlocks_plain:
  assumes "list_all plainKind kinds"
  shows "scanBlocks mk message kinds content aborted =
     (let theoremStack = openingDelimiters kinds content
      in if theoremStack \<noteq> [] \<and> aborted then Threw (Error message)
         else
           (let ends = closingDelimiters content
            in if ends \<noteq> [] \<and> aborted then Threw (Error message)
               else Returned (secondPass mk content theoremStack ends)))"
  by (simp add: scanBlocks_def beginPattern_plain [OF assms] firstPass_lre [OF literal_defines_group]
      openingDelimiters_def Let_def)

section \<open>The scan of well-formed blocks\<close>








lemma defaultTheoremTypes_plain: "list_all plainKind defaultTheoremTypes"
  by code_simp








section \<open>Cancellation\<close>

lemma secondPass_no_opening: "secondPass mk content [] ends = []"
proof -
  have "foldl (closeStep mk content []) st ends = st" for st :: "'a scan"
    by (induction ends) (simp_all add: closeStep_def findStart.simps)
  then show ?thesis by (simp add: secondPass_def)
qed

lemma indexTheorems_of_no_blocks:
  "bindO (Returned []) (\<lambda>ths. bindO (buildIndex ths b)
     (\<lambda>built. bindO (generateIndexingSummary (snd built) (fst built))
        (\<lambda>summary. Returned \<lparr>resultIndex = fst built, resultTheorems = snd built, resultSummary = summary\<rparr>)))
   = Returned emptyIndexingResult"
  by (simp add: buildIndex_def generateIndexingSummary_def detectCyclicDependencies_def
      emptyIndexingResult_def emptySummary_def emptyIndex_def setOf_def)

lemma labelledInside_has_opening: "openingDelimiters defaultTheoremTypes labelledInside \<noteq> []"
  by code_simp

text \<open>
  Whatever the kinds: when they make a pattern, the scan with the signal aborted throws
  the cancellation error if the text has a match of this pattern or a closing delimiter,
  and returns no block otherwise; when they do not make a pattern, the scan throws the
  error of the pattern constructor.
\<close>

lemma firstPass_aborted:
  "firstPass message content pat True i =
     (case execFrom flagI content pat i of None \<Rightarrow> Returned [] | Some m \<Rightarrow> Threw (Error message))"
  by (simp add: firstPass.simps [of message content pat True i] split: option.splits)

lemma scanBlocks_aborted:
  "scanBlocks mk message kinds content True =
     (case beginPattern kinds of
        Returned pat \<Rightarrow>
          if execFrom flagI content pat 0 \<noteq> None \<or> closingDelimiters content \<noteq> []
          then Threw (Error message) else Returned []
      | Threw e \<Rightarrow> Threw e
      | Unmodelled \<Rightarrow> Unmodelled)"
  by (auto simp: scanBlocks_def firstPass_aborted secondPass_no_opening Let_def
      split: outcome.splits option.splits)

text \<open>
  C5, as the code has it. The signal is read at the matches of the delimiters only.
  With the signal aborted (and kinds that are plain words) the indexer throws the
  cancellation error when the text has a match of an opening delimiter of a recognized
  kind or of any closing delimiter; a text with no such match is scanned to its end and
  the complete result, which has no block, is returned. Either way the result is the
  error or the result of the run that is not cancelled, never a part of it.
\<close>

theorem abort_throws_at_first_delimiter:
  assumes "list_all plainKind (theoremTypesOf params defaultTheoremTypes)"
  shows "indexTheorems content path params True =
     (if openingDelimiters (theoremTypesOf params defaultTheoremTypes) content = []
         \<and> closingDelimiters content = []
      then Returned emptyIndexingResult
      else Threw (Error ''Theorem indexing was aborted''))
   \<and> (indexTheorems content path params True = Threw (Error ''Theorem indexing was aborted'')
        \<or> indexTheorems content path params True = indexTheorems content path params False)"
  using indexTheorems_of_no_blocks
  by (simp add: indexTheorems_def indexerScanBlocks_def scanBlocks_plain [OF assms] Let_def
      secondPass_no_opening)

theorem abort_throws_at_first_delimiter_witness:
  "list_all plainKind (theoremTypesOf defaultIndexerParams defaultTheoremTypes)
   \<and> indexTheorems labelledInside ''/doc.tex'' defaultIndexerParams True
       = Threw (Error ''Theorem indexing was aborted'')"
proof -
  have k: "theoremTypesOf defaultIndexerParams defaultTheoremTypes = defaultTheoremTypes"
    by (simp add: theoremTypesOf_def defaultIndexerParams_def)
  with defaultTheoremTypes_plain
  have p: "list_all plainKind (theoremTypesOf defaultIndexerParams defaultTheoremTypes)"
    by simp
  from abort_throws_at_first_delimiter [OF p, of labelledInside "''/doc.tex''"]
    labelledInside_has_opening p
  show ?thesis
    by (simp add: k)
qed

lemma abort_plainText: "indexTheorems plainText ''/doc.tex'' defaultIndexerParams True = Returned emptyIndexingResult"
  by code_simp

lemma abort_starredOpening:
  "indexTheorems starredOpening ''/doc.tex'' starredIndexerParams True = Returned emptyIndexingResult"
  by code_simp

lemma abort_invalid_kinds:
  "indexTheorems plainText ''/doc.tex'' (starredIndexerParams\<lparr>theorem_types := Some [''theorem'', ''*'']\<rparr>) True
   = Threw SyntaxError"
  by code_simp

text \<open>
  With the signal aborted, a text without a delimiter is indexed and nothing is thrown.
  So is the text \<^verbatim>\<open>\begin{theorem*}x\<close> when the one kind is \<^verbatim>\<open>theorem*\<close>, which as a
  pattern does not match this delimiter; and kinds that do not make a pattern, such as
  \<^verbatim>\<open>theorem\<close> and \<^verbatim>\<open>*\<close>, throw the error of the pattern constructor, whatever the
  signal.
\<close>

theorem abort_without_delimiter_counterexample:
  "indexTheorems plainText ''/doc.tex'' defaultIndexerParams True = Returned emptyIndexingResult
   \<and> indexTheorems starredOpening ''/doc.tex'' starredIndexerParams True = Returned emptyIndexingResult
   \<and> indexTheorems plainText ''/doc.tex''
        (starredIndexerParams\<lparr>theorem_types := Some [''theorem'', ''*'']\<rparr>) True
      = Threw SyntaxError"
  using abort_plainText abort_starredOpening abort_invalid_kinds by simp

section \<open>The index builder on names that no object inherits\<close>

lemma map_of_insertKey:
  "map_of d k = None \<Longrightarrow> map_of (insertKey k v d) x = (if x = k then Some v else map_of d x)"
proof (induction d)
  case Nil
  then show ?case by simp
next
  case (Cons e d)
  obtain k' v' where e: "e = (k', v')" by (cases e)
  from Cons.prems e have ne: "k' \<noteq> k" and n: "map_of d k = None"
    by (auto split: if_splits)
  from Cons.IH [OF n] e ne show ?case
    by (auto split: option.splits)
qed

lemma map_of_replace:
  "map_of (map (\<lambda>(k', v'). if k' = k then (k', v) else (k', v')) d) x =
     (if x = k \<and> map_of d k \<noteq> None then Some v else map_of d x)"
proof (induction d)
  case Nil
  then show ?case by simp
next
  case (Cons e d)
  obtain k' v' where e: "e = (k', v')" by (cases e)
  from Cons.IH e show ?case by auto
qed

lemma map_of_dictSet: "map_of (dictSet d k v) x = (if x = k then Some v else map_of d x)"
proof (cases "map_of d k")
  case None
  then have "k \<notin> set (map fst d)" by (simp add: map_of_eq_None_iff)
  with None show ?thesis by (simp add: dictSet_def map_of_insertKey)
next
  case (Some a)
  then have "k \<in> set (map fst d)" by (metis map_of_eq_None_iff option.distinct(1) set_map)
  with Some show ?thesis by (simp add: dictSet_def map_of_replace)
qed

lemma dictGet_plain:
  "k \<notin> set objectPrototypeKeys \<Longrightarrow>
   dictGet d k = (case map_of d k of Some v \<Rightarrow> Own v | None \<Rightarrow> Undefined)"
  by (simp add: dictGet_def split: option.splits)

lemma dictGet_present: "map_of d k = Some v \<Longrightarrow> dictGet d k = Own v"
  by (simp add: dictGet_def)

lemma pushInit_plain:
  "k \<notin> set objectPrototypeKeys \<Longrightarrow> \<exists>d'. pushInit d k x = Returned d'"
  by (simp add: pushInit_def dictGet_plain split: option.splits)

lemma symbols_loop_plain:
  "list_all (\<lambda>s. s \<notin> set objectPrototypeKeys) syms \<Longrightarrow>
   \<exists>d'. forEachO syms (\<lambda>symbol si. pushInit si symbol x) d = Returned d'"
proof (induction syms arbitrary: d)
  case Nil
  then show ?case by simp
next
  case (Cons s syms)
  from Cons.prems have "s \<notin> set objectPrototypeKeys" by simp
  from pushInit_plain [OF this] obtain d1 where "pushInit d s x = Returned d1" by blast
  with Cons.IH [of d1] Cons.prems show ?case by simp
qed

lemma dom_dictSet: "dom (map_of (dictSet d k v)) = insert k (dom (map_of d))"
  by (auto simp: map_of_dictSet dom_def)

lemma ran_dictSet: "ran (map_of (dictSet d k v)) \<subseteq> insert v (ran (map_of d))"
  by (auto simp: map_of_dictSet ran_def split: if_splits)

lemma indexBasic_plain:
  assumes "plainBlock t" and "basicInv S p idx"
  shows "\<exists>idx'. indexBasic t p idx = Returned idx' \<and> basicInv (insert (ident t) S) (Suc p) idx'"
proof -
  define idx0 where "idx0 =
    (case label t of
       None \<Rightarrow> idx
     | Some l \<Rightarrow> if l \<noteq> [] \<and> l \<noteq> ''__proto__''
                then idx\<lparr>labelToId := dictSet (labelToId idx) l (ident t)\<rparr> else idx)"
  define idx1 where "idx1 = idx0\<lparr>theorems := dictSet (theorems idx0) (ident t) p\<rparr>"
  from assms(1) have ty: "type t \<notin> set objectPrototypeKeys"
    and sy: "list_all (\<lambda>s. s \<notin> set objectPrototypeKeys) (symbols t)"
    and np: "ident t \<noteq> ''__proto__''"
    by (simp_all add: plainBlock_def)
  from pushInit_plain [OF ty] obtain ti where ti: "pushInit (typeIndex idx1) (type t) (ident t) = Returned ti"
    by blast
  from symbols_loop_plain [OF sy] obtain si
    where si: "forEachO (symbols t) (\<lambda>symbol si. pushInit si symbol (ident t)) (symbolIndex idx1) = Returned si"
    by blast
  let ?idx' = "idx1\<lparr>typeIndex := ti, symbolIndex := si,
        dependencyGraph := dictSet (dependencyGraph idx1) (ident t) [],
        reverseDependencyGraph := dictSet (reverseDependencyGraph idx1) (ident t) []\<rparr>"
  have e: "typeIndex idx1 = typeIndex idx0" "symbolIndex idx1 = symbolIndex idx0"
    "dependencyGraph idx1 = dependencyGraph idx0"
    "reverseDependencyGraph idx1 = reverseDependencyGraph idx0"
    by (simp_all add: idx1_def)
  have r: "indexBasic t p idx = Returned ?idx'"
    using np ti si
    by (simp add: indexBasic_def Let_def idx0_def [symmetric] idx1_def [symmetric] e)
  from assms(2) have lS: "ran (map_of (labelToId idx)) \<subseteq> S"
    by (simp add: basicInv_def)
  have l0: "ran (map_of (labelToId idx0)) \<subseteq> insert (ident t) S"
  proof (cases "labelToId idx0 = labelToId idx")
    case True
    with lS show ?thesis by auto
  next
    case False
    then obtain l where "labelToId idx0 = dictSet (labelToId idx) l (ident t)"
      by (auto simp: idx0_def split: option.splits if_splits)
    with ran_dictSet [of "labelToId idx" l "ident t"] lS show ?thesis by auto
  qed
  have o0: "dependencyGraph idx0 = dependencyGraph idx" "reverseDependencyGraph idx0 = reverseDependencyGraph idx"
    "theorems idx0 = theorems idx"
    by (simp_all add: idx0_def split: option.splits)
  have "ran (map_of (dictSet (theorems idx) (ident t) p)) \<subseteq> {..<Suc p}"
    using assms(2) ran_dictSet [of "theorems idx" "ident t" p]
    by (auto simp: basicInv_def)
  with assms(2) l0 o0 have "basicInv (insert (ident t) S) (Suc p) ?idx'"
    by (simp add: basicInv_def idx1_def dom_dictSet)
  with r show ?thesis by blast
qed

lemma basic_loop_plain:
  "list_all plainBlock ts \<Longrightarrow> basicInv S p idx \<Longrightarrow>
   \<exists>idx'. forEachO (enumerate p ts) (\<lambda>entry idx. indexBasic (snd entry) (fst entry) idx) idx = Returned idx'
          \<and> basicInv (S \<union> ident ` set ts) (p + length ts) idx'"
proof (induction ts arbitrary: S p idx)
  case Nil
  then show ?case by simp
next
  case (Cons t ts)
  from Cons.prems have pt: "plainBlock t" and pts: "list_all plainBlock ts" by simp_all
  from indexBasic_plain [OF pt Cons.prems(2)] obtain idx1
    where s: "indexBasic t p idx = Returned idx1" and i: "basicInv (insert (ident t) S) (Suc p) idx1"
    by blast
  from Cons.IH [OF pts i] obtain idx'
    where "forEachO (enumerate (Suc p) ts) (\<lambda>entry idx. indexBasic (snd entry) (fst entry) idx) idx1 = Returned idx'"
      and "basicInv (insert (ident t) S \<union> ident ` set ts) (Suc p + length ts) idx'"
    by blast
  with s show ?case by simp
qed

lemma grows_refl: "grows st st"
  by (simp add: grows_def)

lemma grows_trans:
  assumes "length (snd st1) = length (snd st2)" "grows st1 st2" "grows st2 st3"
  shows "grows st1 st3"
  unfolding grows_def
proof (intro conjI allI impI)
  fix k
  from assms(2,3) show "entriesAt (dependencyGraph (fst st1)) k \<subseteq> entriesAt (dependencyGraph (fst st3)) k"
    unfolding grows_def by (blast intro: order_trans)
  from assms(2,3)
  show "entriesAt (reverseDependencyGraph (fst st1)) k \<subseteq> entriesAt (reverseDependencyGraph (fst st3)) k"
    unfolding grows_def by (blast intro: order_trans)
next
  fix i assume i: "i < length (snd st1)"
  with assms(1) have i2: "i < length (snd st2)" by simp
  from assms(2) i have a: "set (dependencies (snd st1 ! i)) \<subseteq> set (dependencies (snd st2 ! i))"
    by (simp add: grows_def)
  from assms(3) i2 have b: "set (dependencies (snd st2 ! i)) \<subseteq> set (dependencies (snd st3 ! i))"
    by (simp add: grows_def)
  from a b show "set (dependencies (snd st1 ! i)) \<subseteq> set (dependencies (snd st3 ! i))"
    by (rule order_trans)
  from assms(2) i have c: "set (dependents (snd st1 ! i)) \<subseteq> set (dependents (snd st2 ! i))"
    by (simp add: grows_def)
  from assms(3) i2 have d: "set (dependents (snd st2 ! i)) \<subseteq> set (dependents (snd st3 ! i))"
    by (simp add: grows_def)
  from c d show "set (dependents (snd st1 ! i)) \<subseteq> set (dependents (snd st3 ! i))"
    by (rule order_trans)
qed

lemma edgeRecorded_grows:
  assumes "edgeRecorded ths L T i r st" "grows st st'" "i < length ths" "tablesOk ths L T"
    "length (snd st) = length ths"
  shows "edgeRecorded ths L T i r st'"
  unfolding edgeRecorded_def
proof (intro allI impI)
  fix rid
  assume a: "map_of L r = Some rid \<and> rid \<noteq> [] \<and> rid \<noteq> ident (ths ! i)"
  with assms(1) have e: "rid \<in> entriesAt (dependencyGraph (fst st)) (ident (ths ! i))"
    "ident (ths ! i) \<in> entriesAt (reverseDependencyGraph (fst st)) rid"
    "rid \<in> set (dependencies (snd st ! i))"
    "\<And>j. map_of T rid = Some j \<Longrightarrow> ident (ths ! i) \<in> set (dependents (snd st ! j))"
    by (simp_all add: edgeRecorded_def)
  have "\<And>j. map_of T rid = Some j \<Longrightarrow> ident (ths ! i) \<in> set (dependents (snd st' ! j))"
  proof -
    fix j assume j: "map_of T rid = Some j"
    then have "j \<in> ran (map_of T)" by (auto simp: ran_def)
    with assms(4) have "j < length ths" by (auto simp: tablesOk_def)
    with assms(2,5) e(4) [OF j] show "ident (ths ! i) \<in> set (dependents (snd st' ! j))"
      by (auto simp: grows_def)
  qed
  with e(1,2,3) assms(2,3,5)
  show "rid \<in> entriesAt (dependencyGraph (fst st')) (ident (ths ! i))
        \<and> ident (ths ! i) \<in> entriesAt (reverseDependencyGraph (fst st')) rid
        \<and> rid \<in> set (dependencies (snd st' ! i))
        \<and> (\<forall>j. map_of T rid = Some j \<longrightarrow> ident (ths ! i) \<in> set (dependents (snd st' ! j)))"
    by (auto simp: grows_def)
qed

lemma entriesAt_dictSet:
  "entriesAt (dictSet d k xs) k' = (if k' = k then set xs else entriesAt d k')"
  by (simp add: entriesAt_def map_of_dictSet)

lemma pushAt_present:
  "map_of d k = Some xs \<Longrightarrow> pushAt d k x = Returned (dictSet d k (xs @ [x]))"
  by (simp add: pushAt_def dictGet_present)


lemma addDependency_plain:
  assumes ok: "tablesOk ths L T" and inv: "depInv ths L T st" and i: "i < length ths"
    and r: "r \<notin> set objectPrototypeKeys"
  shows "\<exists>st'. addDependency i r st = Returned st' \<and> depInv ths L T st' \<and> grows st st'
           \<and> edgeRecorded ths L T i r st'"
proof -
  obtain idx cur where st: "st = (idx, cur)" by (cases st)
  from inv st have L: "labelToId idx = L" and T: "theorems idx = T"
    and dg: "dom (map_of (dependencyGraph idx)) = ident ` set ths"
    and rg: "dom (map_of (reverseDependencyGraph idx)) = ident ` set ths"
    and len: "length cur = length ths"
    and ids: "\<forall>i<length ths. ident (cur ! i) = ident (ths ! i)"
    by (simp_all add: depInv_def)
  from ids i have a: "ident (cur ! i) = ident (ths ! i)" by simp
  let ?a = "ident (ths ! i)"
  show ?thesis
  proof (cases "\<exists>rid. map_of L r = Some rid \<and> rid \<noteq> [] \<and> rid \<noteq> ?a")
    case False
    then have "addDependency i r st = Returned st"
      using r L a st by (auto simp: addDependency_def Let_def dictGet_plain split: option.splits)
    moreover from False have "edgeRecorded ths L T i r st"
      unfolding edgeRecorded_def by blast
    ultimately show ?thesis using inv grows_refl by auto
  next
    case True
    then obtain rid where rid: "map_of L r = Some rid" "rid \<noteq> []" "rid \<noteq> ?a" by blast
    from i have "?a \<in> ident ` set ths" by simp
    with dg obtain xs where xs: "map_of (dependencyGraph idx) ?a = Some xs" by blast
    from rid(1) have "rid \<in> ran (map_of L)" by (auto simp: ran_def)
    with ok have ridS: "rid \<in> ident ` set ths" by (auto simp: tablesOk_def)
    with rg obtain ys where ys: "map_of (reverseDependencyGraph idx) rid = Some ys" by blast
    from ok have "dom (map_of T) = ident ` set ths" by (simp add: tablesOk_def)
    with ridS have "rid \<in> dom (map_of T)" by simp
    then obtain j where j: "map_of T rid = Some j" by blast
    then have "j \<in> ran (map_of T)" by (auto simp: ran_def)
    with ok have jn: "j < length ths" by (auto simp: tablesOk_def)
    define idx' where "idx' = idx\<lparr>dependencyGraph := dictSet (dependencyGraph idx) ?a (xs @ [rid]),
        reverseDependencyGraph := dictSet (reverseDependencyGraph idx) rid (ys @ [?a])\<rparr>"
    define cur1 where "cur1 = cur[i := (cur ! i)\<lparr>dependencies := dependencies (cur ! i) @ [rid]\<rparr>]"
    define cur2 where "cur2 = cur1[j := (cur1 ! j)\<lparr>dependents := dependents (cur1 ! j) @ [?a]\<rparr>]"
    have g: "dictGet (labelToId idx) r = Own rid"
      using rid(1) L by (simp add: dictGet_present)
    have t: "dictGet (theorems idx) rid = Own j"
      using j T by (simp add: dictGet_present)
    have res: "addDependency i r st = Returned (idx', cur2)"
      using g t rid(2,3) a
      by (simp add: addDependency_def st Let_def pushAt_present [OF xs] pushAt_present [OF ys]
          idx'_def cur1_def cur2_def)
    have len2: "length cur2 = length ths" by (simp add: cur2_def cur1_def len)
    have len1: "length cur1 = length ths" by (simp add: cur1_def len)
    have id1: "\<forall>k<length ths. ident (cur1 ! k) = ident (ths ! k)"
      using ids len i by (simp add: cur1_def nth_list_update)
    have id2: "\<forall>k<length ths. ident (cur2 ! k) = ident (ths ! k)"
      using id1 len1 jn by (simp add: cur2_def nth_list_update)
    have inv': "depInv ths L T (idx', cur2)"
      using L T dg rg len2 id2 i ridS
      by (auto simp: depInv_def idx'_def dom_dictSet)
    have dep1: "\<forall>k<length ths. set (dependencies (cur ! k)) \<subseteq> set (dependencies (cur1 ! k))
        \<and> set (dependents (cur ! k)) \<subseteq> set (dependents (cur1 ! k))"
      using len i by (auto simp: cur1_def nth_list_update)
    have dep12: "\<forall>k<length ths. set (dependencies (cur1 ! k)) \<subseteq> set (dependencies (cur2 ! k))
        \<and> set (dependents (cur1 ! k)) \<subseteq> set (dependents (cur2 ! k))"
      using len1 jn by (auto simp: cur2_def nth_list_update)
    have dep2: "\<forall>k<length ths. set (dependencies (cur ! k)) \<subseteq> set (dependencies (cur2 ! k))
        \<and> set (dependents (cur ! k)) \<subseteq> set (dependents (cur2 ! k))"
      using dep1 dep12 by blast
    have ex: "entriesAt (dependencyGraph idx) ?a = set xs"
      using xs by (simp add: entriesAt_def)
    have ey: "entriesAt (reverseDependencyGraph idx) rid = set ys"
      using ys by (simp add: entriesAt_def)
    have gr: "grows st (idx', cur2)"
      using dep2 len ex ey
      by (auto simp: grows_def st idx'_def entriesAt_dictSet)
    have "rid \<in> set (dependencies (cur1 ! i))"
      using i len by (simp add: cur1_def)
    with dep12 i have in1: "rid \<in> set (dependencies (cur2 ! i))" by blast
    have in2: "?a \<in> set (dependents (cur2 ! j))"
      using jn len1 by (simp add: cur2_def)
    have ed: "edgeRecorded ths L T i r (idx', cur2)"
      using rid(1) j in1 in2
      by (auto simp: edgeRecorded_def idx'_def entriesAt_dictSet)
    from res inv' gr ed show ?thesis by blast
  qed
qed


lemma references_loop_plain:
  assumes ok: "tablesOk ths L T" and i: "i < length ths"
  shows "depInv ths L T st \<Longrightarrow> list_all (\<lambda>r. r \<notin> set objectPrototypeKeys) rs \<Longrightarrow>
         \<exists>st'. forEachO rs (addDependency i) st = Returned st' \<and> depInv ths L T st' \<and> grows st st'
           \<and> list_all (\<lambda>r. edgeRecorded ths L T i r st') rs"
proof (induction rs arbitrary: st)
  case Nil
  then show ?case by (simp add: grows_refl)
next
  case (Cons r rs)
  from Cons.prems have r: "r \<notin> set objectPrototypeKeys"
    and rs: "list_all (\<lambda>r. r \<notin> set objectPrototypeKeys) rs" by simp_all
  from addDependency_plain [OF ok Cons.prems(1) i r] obtain st1
    where s1: "addDependency i r st = Returned st1" and i1: "depInv ths L T st1"
      and g1: "grows st st1" and e1: "edgeRecorded ths L T i r st1" by blast
  from Cons.IH [OF i1 rs] obtain st'
    where s2: "forEachO rs (addDependency i) st1 = Returned st'" and i2: "depInv ths L T st'"
      and g2: "grows st1 st'" and e2: "list_all (\<lambda>r. edgeRecorded ths L T i r st') rs" by blast
  from Cons.prems(1) i1 have l: "length (snd st) = length (snd st1)" and l1: "length (snd st1) = length ths"
    by (simp_all add: depInv_def)
  from s1 s2 have "forEachO (r # rs) (addDependency i) st = Returned st'" by simp
  moreover from grows_trans [OF l g1 g2] have "grows st st'" .
  moreover from edgeRecorded_grows [OF e1 g2 i ok l1] have "edgeRecorded ths L T i r st'" .
  ultimately show ?case using i2 e2 by simp
qed

text \<open>The second loop, over the blocks from position \<open>p\<close> on.\<close>

lemma dependencies_loop_plain:
  assumes ok: "tablesOk ths L T"
  shows "depInv ths L T st \<Longrightarrow> list_all plainBlock ts \<Longrightarrow> p + length ts \<le> length ths \<Longrightarrow>
         \<exists>st'. forEachO (enumerate p ts)
                 (\<lambda>entry state. forEachO (references (snd entry)) (addDependency (fst entry)) state) st
               = Returned st'
           \<and> depInv ths L T st' \<and> grows st st'
           \<and> list_all (\<lambda>entry. list_all (\<lambda>r. edgeRecorded ths L T (fst entry) r st')
                                  (references (snd entry))) (enumerate p ts)"
proof (induction ts arbitrary: st p)
  case Nil
  then show ?case by (simp add: grows_refl)
next
  case (Cons t ts)
  let ?body = "\<lambda>entry state. forEachO (references (snd entry)) (addDependency (fst entry)) state"
  from Cons.prems have p: "p < length ths" and pl: "Suc p + length ts \<le> length ths"
    and pt: "plainBlock t" and pts: "list_all plainBlock ts"
    by simp_all
  from pt have rs: "list_all (\<lambda>r. r \<notin> set objectPrototypeKeys) (references t)"
    by (simp add: plainBlock_def)
  from references_loop_plain [OF ok p Cons.prems(1) rs] obtain st1
    where s1: "forEachO (references t) (addDependency p) st = Returned st1"
      and i1: "depInv ths L T st1" and g1: "grows st st1"
      and e1: "list_all (\<lambda>r. edgeRecorded ths L T p r st1) (references t)" by blast
  from Cons.IH [OF i1 pts pl] obtain st'
    where s2: "forEachO (enumerate (Suc p) ts) ?body st1 = Returned st'"
      and i2: "depInv ths L T st'" and g2: "grows st1 st'"
      and e2: "list_all (\<lambda>entry. list_all (\<lambda>r. edgeRecorded ths L T (fst entry) r st')
                 (references (snd entry))) (enumerate (Suc p) ts)" by blast
  from Cons.prems(1) i1 have l: "length (snd st) = length (snd st1)" and l1: "length (snd st1) = length ths"
    by (simp_all add: depInv_def)
  from s1 s2 have "forEachO (enumerate p (t # ts)) ?body st = Returned st'" by simp
  moreover from grows_trans [OF l g1 g2] have "grows st st'" .
  moreover have "list_all (\<lambda>r. edgeRecorded ths L T p r st') (references t)"
    using e1 edgeRecorded_grows [OF _ g2 p ok l1] by (simp add: list_all_iff)
  ultimately show ?case using i2 e2 by simp
qed

text \<open>
  For blocks none of whose identifier, kind, symbols and references is a name that every
  object inherits, \<open>buildIndex\<close> returns, and every reference that the label map sends to
  an identifier other than the block's own is recorded in the two graphs and in the two
  lists of the blocks.
\<close>

lemma buildIndex_plain:
  assumes "list_all plainBlock ths"
  shows "\<exists>idx ths'. buildIndex ths True = Returned (idx, ths') \<and> length ths' = length ths
           \<and> (\<forall>i<length ths. \<forall>r\<in>set (references (ths ! i)).
                 edgeRecorded ths (labelToId idx) (theorems idx) i r (idx, ths'))"
proof -
  have b0: "basicInv {} 0 emptyIndex"
    by (simp add: basicInv_def emptyIndex_def)
  from basic_loop_plain [OF assms b0] obtain idx0
    where s0: "forEachO (enumerate 0 ths) (\<lambda>entry idx. indexBasic (snd entry) (fst entry) idx) emptyIndex
               = Returned idx0"
      and b: "basicInv (ident ` set ths) (length ths) idx0" by auto
  let ?L = "labelToId idx0" and ?T = "theorems idx0"
  from b have ok: "tablesOk ths ?L ?T" by (simp add: basicInv_def tablesOk_def)
  from b have inv: "depInv ths ?L ?T (idx0, ths)" by (simp add: basicInv_def depInv_def)
  from dependencies_loop_plain [OF ok inv assms, of 0] obtain st'
    where s: "forEachO (enumerate 0 ths)
                (\<lambda>entry state. forEachO (references (snd entry)) (addDependency (fst entry)) state)
                (idx0, ths) = Returned st'"
      and i': "depInv ths ?L ?T st'"
      and e: "list_all (\<lambda>entry. list_all (\<lambda>r. edgeRecorded ths ?L ?T (fst entry) r st')
                (references (snd entry))) (enumerate 0 ths)" by auto
  obtain idx ths' where st': "st' = (idx, ths')" by (cases st')
  from i' st' have L: "labelToId idx = ?L" and T: "theorems idx = ?T" and len: "length ths' = length ths"
    by (simp_all add: depInv_def)
  have "\<forall>i<length ths. \<forall>r\<in>set (references (ths ! i)). edgeRecorded ths ?L ?T i r st'"
  proof (intro allI impI ballI)
    fix i r assume i: "i < length ths" and r: "r \<in> set (references (ths ! i))"
    from i have "(i, ths ! i) \<in> set (enumerate 0 ths)" by (simp add: in_set_enumerate_eq)
    with e r show "edgeRecorded ths ?L ?T i r st'" by (auto simp: list_all_iff)
  qed
  with s0 s st' L T len show ?thesis by (simp add: buildIndex_def)
qed


text \<open>
  A reference that the label map does not know, or that it sends to the identifier of
  the block itself, leaves the index and the blocks as they are.
\<close>

lemma addDependency_dropped:
  assumes "r \<notin> set objectPrototypeKeys"
    and "map_of (labelToId (fst st)) r \<in> {None, Some (ident (snd st ! i))}"
  shows "addDependency i r st = Returned st"
  using assms by (auto simp: addDependency_def Let_def dictGet_plain)

section \<open>Names inherited by the tables, and labels that occur twice\<close>

text \<open>
  C2 at \<^verbatim>\<open>\begin{theorem}\ref{constructor}\end{theorem}\<close>: the scan returns one block
  whose only reference is \<open>constructor\<close>; no block has this label, yet
  \<^verbatim>\<open>labelToId['constructor']\<close> is the function every object inherits, the guard lets it
  through, and \<^verbatim>\<open>buildIndex\<close> throws a \<^verbatim>\<open>TypeError\<close> at the reverse graph.
\<close>

theorem inherited_reference_throws:
  "map_option (map references) (returned (indexerScanBlocks refConstructor ''/doc.tex'' defaultIndexerParams False))
     = Some [[''constructor'']]
   \<and> indexTheorems refConstructor ''/doc.tex'' defaultIndexerParams False = Threw TypeError"
  by code_simp

text \<open>
  C6 at \<^verbatim>\<open>\begin{theorem}{L}a\end{theorem}\begin{lemma}{L}b\end{lemma}\<close>: no error, the
  label map sends \<open>L\<close> to the identifier of the later block; but both blocks have the
  identifier \<open>L\<close>, and the table of the blocks has the one key \<open>L\<close>, which holds the
  later block (position 1 of the list): the earlier block is under no key.
\<close>

theorem duplicate_label_duplicate_identifier:
  "map_option (\<lambda>r. (map ident (resultTheorems r), map index (resultTheorems r),
                      labelToId (resultIndex r), theorems (resultIndex r)))
     (returned (indexTheorems sameLabelTwice ''/doc.tex'' defaultIndexerParams False))
   = Some ([''L'', ''L''], [1, 2], [(''L'', ''L'')], [(''L'', 1)])"
  by code_simp


end
